theory Spec2Isabelle
  imports Main
begin


section \<open>TrickleJS streams: data model\<close>

text \<open>
  The development embeds \<^verbatim>\<open>stream.ts\<close>, \<^verbatim>\<open>stream_subscription.ts\<close>,
  \<^verbatim>\<open>stream_utils.ts\<close> and \<^verbatim>\<open>stream_controller.ts\<close>. JavaScript objects live in
  a store indexed by identifiers (streams, subscriptions, promises of aggregators); every
  method takes the store and returns the updated store. A thrown exception is a value
  returned next to the store, which keeps the mutations made before the throw. The
  host's \<^verbatim>\<open>nextTick\<close> queue is an explicit FIFO list of tasks; \<open>tick\<close> runs its head.
\<close>

type_synonym sid = nat
type_synonym subid = nat
type_synonym lid = nat
type_synonym pid = nat
type_synonym cbid = nat

text \<open>Exceptions: the three module-level error objects, \<^verbatim>\<open>new Error(msg)\<close>, and any
  other thrown value. \<open>RangeError\<close> stands for the stack overflow of a cyclic parent chain,
  \<open>TypeError\<close> for a call of something that is not a function.\<close>

datatype exn = ErrorForAdd | ErrorForAddError | ErrorForListen
  | ErrorObj string | ThrownVal string | RangeError | TypeError

text \<open>The result of calling a user function (predicate, transform, reducer).\<close>

datatype 'r outcome = Returns 'r | Throws exn

text \<open>\<^verbatim>\<open>types.ts\<close>: StreamMessage.\<close>

datatype 'a message = Data 'a | Error exn | Done

text \<open>The argument of \<^verbatim>\<open>addError(message: string | Error)\<close>.\<close>

datatype err_input = Msg string | Err exn

fun createDataMessage :: "'a \<Rightarrow> 'a message" where
  "createDataMessage d = Data d"

fun createErrorMessage :: "err_input \<Rightarrow> 'a message" where
  "createErrorMessage (Msg m) = Error (ErrorObj m)"
| "createErrorMessage (Err e) = Error e"

definition createDoneMessage :: "'a message" where
  "createDoneMessage = Done"

text \<open>Values a promise of an aggregator settles with (\<^verbatim>\<open>any\<close> in the source).\<close>

datatype 'a jsval = VData 'a | VBool bool | VNull | VUndef | VErr exn
  | VArray "'a list" | VSet "'a list"

datatype 'a settled = Resolved "'a jsval" | Rejected "'a jsval"

text \<open>The derived streams of \<^verbatim>\<open>stream.ts\<close>: the subclasses of \<^verbatim>\<open>_filteringStream\<close> with
  their constructor arguments.\<close>

datatype 'a variant = FromStream
  | MapS "'a \<Rightarrow> 'a outcome"
  | TakeS int
  | TakeWhileS "'a \<Rightarrow> bool outcome"
  | SkipS int
  | SkipWhileS "'a \<Rightarrow> bool outcome"
  | WhereS "'a \<Rightarrow> bool outcome"

datatype 'a kind = Base | Broadcast sid | Filtering sid "'a variant"

text \<open>The terminal aggregators with their arguments.\<close>

datatype 'a aggregator = Every "'a \<Rightarrow> bool outcome" | First
  | FirstWhere "'a \<Rightarrow> bool outcome" | ForEach "'a \<Rightarrow> unit outcome"
  | Reduce "'a jsval \<Rightarrow> 'a \<Rightarrow> 'a jsval outcome" | ToArray | ToSet

text \<open>\<^verbatim>\<open>StreamListenOptions\<close> of a user listener: which callbacks are present.\<close>

record listen_options =
  has_onError :: bool
  has_onDone :: bool
  has_onPause :: bool
  has_onResume :: bool
  cancelOnError :: bool

text \<open>
  The closures a subscription is created with:
  \<^item> \<open>Wire c\<close>: \<^verbatim>\<open>c.add.bind(c)\<close> with \<^verbatim>\<open>onError: c.addError.bind(c), onDone: c.close.bind(c)\<close>,
    the wiring of a derived or broadcast stream \<open>c\<close> to its parent;
  \<^item> \<open>Recorder l opts\<close>: a user listener that only records its calls (a \<^verbatim>\<open>jest.fn()\<close>);
  \<^item> \<open>Agg p a\<close>: the callbacks of aggregator \<open>a\<close> whose promise is \<open>p\<close>.
\<close>

datatype 'a handler = Wire sid | Recorder lid listen_options | Agg pid "'a aggregator"

record 'a subscription =
  owner :: sid
  handler :: "'a handler"
  sbuffer :: "'a message list"
  sPaused :: bool

record 'a stream =
  kind :: "'a kind"
  subscription :: "subid option"
  buffer :: "'a message list"
  isPaused :: bool
  isClosed :: bool
  eventCallbacks :: "string \<Rightarrow> cbid list"
  parentSubscription :: "subid option"
  subscribers :: "subid list"
  fsub :: "subid option"
  taken :: int
  skipped :: int
  isSkipping :: bool

text \<open>The mutable variables an aggregator closes over, and its promise.\<close>

record 'a agg_state =
  outcome_of :: "'a settled option"
  seenFirst :: bool
  acc :: "'a jsval"
  result :: "'a list"

datatype 'a task = TFlush sid | TEvent sid string | TFanout sid "'a message"

text \<open>Observable events, in the order they happen.\<close>

datatype 'a event = Received lid "'a message"
  | Hook sid string cbid
  | Cancelled sid subid
  | Settled pid "'a settled"
  | PauseCb lid | ResumeCb lid

record 'a world =
  streams :: "sid \<Rightarrow> 'a stream"
  subs :: "subid \<Rightarrow> 'a subscription"
  aggs :: "pid \<Rightarrow> 'a agg_state"
  queue :: "'a task list"
  trace :: "'a event list"
  next_stream :: nat
  next_sub :: nat
  next_agg :: nat

definition no_options :: listen_options where
  "no_options = \<lparr>has_onError = False, has_onDone = False, has_onPause = False,
     has_onResume = False, cancelOnError = False\<rparr>"

definition new_stream_obj :: "'a kind \<Rightarrow> 'a stream" where
  "new_stream_obj k = \<lparr>kind = k, subscription = None, buffer = [], isPaused = False,
     isClosed = False, eventCallbacks = (\<lambda>_. []), parentSubscription = None,
     subscribers = [], fsub = None, taken = 0, skipped = 0, isSkipping = True\<rparr>"

definition new_subscription :: "sid \<Rightarrow> 'a handler \<Rightarrow> 'a subscription" where
  "new_subscription s h = \<lparr>owner = s, handler = h, sbuffer = [], sPaused = False\<rparr>"

definition new_agg_state :: "'a agg_state" where
  "new_agg_state = \<lparr>outcome_of = None, seenFirst = False, acc = VUndef, result = []\<rparr>"

definition init_world :: "'a world" where
  "init_world = \<lparr>streams = (\<lambda>_. new_stream_obj Base),
     subs = (\<lambda>_. new_subscription 0 (Recorder 0 no_options)),
     aggs = (\<lambda>_. new_agg_state), queue = [], trace = [],
     next_stream = 0, next_sub = 0, next_agg = 0\<rparr>"

section \<open>Store access\<close>

definition upd_stream :: "sid \<Rightarrow> ('a stream \<Rightarrow> 'a stream) \<Rightarrow> 'a world \<Rightarrow> 'a world" where
  "upd_stream s f w = w\<lparr>streams := (streams w)(s := f (streams w s))\<rparr>"

definition upd_sub :: "subid \<Rightarrow> ('a subscription \<Rightarrow> 'a subscription) \<Rightarrow> 'a world \<Rightarrow> 'a world" where
  "upd_sub k f w = w\<lparr>subs := (subs w)(k := f (subs w k))\<rparr>"

definition upd_agg :: "pid \<Rightarrow> ('a agg_state \<Rightarrow> 'a agg_state) \<Rightarrow> 'a world \<Rightarrow> 'a world" where
  "upd_agg p f w = w\<lparr>aggs := (aggs w)(p := f (aggs w p))\<rparr>"

definition log_event :: "'a event \<Rightarrow> 'a world \<Rightarrow> 'a world" where
  "log_event e w = w\<lparr>trace := trace w @ [e]\<rparr>"

text \<open>\<^verbatim>\<open>stream_utils.ts\<close>: nextTick appends to the host's FIFO queue.\<close>

definition nextTick :: "'a task \<Rightarrow> 'a world \<Rightarrow> 'a world" where
  "nextTick t w = w\<lparr>queue := queue w @ [t]\<rparr>"

text \<open>Sequencing of two calls: the second runs only if the first did not throw.\<close>

definition and_then :: "exn option \<times> 'a world \<Rightarrow> ('a world \<Rightarrow> exn option \<times> 'a world)
    \<Rightarrow> exn option \<times> 'a world" where
  "and_then r f = (case r of (None, w) \<Rightarrow> f w | (Some e, w) \<Rightarrow> (Some e, w))"

text \<open>\<^verbatim>\<open>xs.forEach(f)\<close> where \<open>f\<close> may throw: the exception ends the loop.\<close>

fun for_each :: "('b \<Rightarrow> 'a world \<Rightarrow> exn option \<times> 'a world) \<Rightarrow> 'b list \<Rightarrow> 'a world
    \<Rightarrow> exn option \<times> 'a world" where
  "for_each f [] w = (None, w)"
| "for_each f (x # xs) w = (case f x w of
       (None, w') \<Rightarrow> for_each f xs w'
     | (Some e, w') \<Rightarrow> (Some e, w'))"

section \<open>The base Stream (\<^verbatim>\<open>class Stream\<close>)\<close>

text \<open>\<^verbatim>\<open>_callEventListeners(name)\<close>: the callbacks are looked up when the task runs.\<close>

definition callEventListeners :: "sid \<Rightarrow> string \<Rightarrow> 'a world \<Rightarrow> 'a world" where
  "callEventListeners s name w = nextTick (TEvent s name) w"

text \<open>\<^verbatim>\<open>_emit()\<close>: the test on \<open>isPaused\<close> and the subscription is made at the call, the
  delivery itself is the task \<open>TFlush s\<close>.\<close>

definition emit :: "sid \<Rightarrow> 'a world \<Rightarrow> 'a world" where
  "emit s w = (if isPaused (streams w s) \<or> subscription (streams w s) = None then w
     else nextTick (TFlush s) w)"

definition base_cancel :: "sid \<Rightarrow> subid \<Rightarrow> 'a world \<Rightarrow> 'a world" where
  "base_cancel s k w = callEventListeners s ''onCancel''
     (upd_stream s (\<lambda>st. st\<lparr>subscription := None\<rparr>) (log_event (Cancelled s k) w))"

definition base_add :: "sid \<Rightarrow> 'a \<Rightarrow> 'a world \<Rightarrow> exn option \<times> 'a world" where
  "base_add s d w = (if isClosed (streams w s) then (Some ErrorForAdd, w)
     else (None, emit s (upd_stream s (\<lambda>st. st\<lparr>buffer := buffer st @ [createDataMessage d]\<rparr>) w)))"

definition base_addError :: "sid \<Rightarrow> err_input \<Rightarrow> 'a world \<Rightarrow> exn option \<times> 'a world" where
  "base_addError s m w = (if isClosed (streams w s) then (Some ErrorForAddError, w)
     else (None, emit s (upd_stream s (\<lambda>st. st\<lparr>buffer := buffer st @ [createErrorMessage m]\<rparr>) w)))"

definition base_pause :: "sid \<Rightarrow> 'a world \<Rightarrow> 'a world" where
  "base_pause s w = (if \<not> isPaused (streams w s)
     then callEventListeners s ''onPause'' (upd_stream s (\<lambda>st. st\<lparr>isPaused := True\<rparr>) w)
     else w)"

definition base_resume :: "sid \<Rightarrow> 'a world \<Rightarrow> 'a world" where
  "base_resume s w = (if isPaused (streams w s)
     then emit s (callEventListeners s ''onResume'' (upd_stream s (\<lambda>st. st\<lparr>isPaused := False\<rparr>) w))
     else w)"

definition base_close :: "sid \<Rightarrow> 'a world \<Rightarrow> 'a world" where
  "base_close s w = emit s (upd_stream s
     (\<lambda>st. st\<lparr>isClosed := True, buffer := buffer st @ [createDoneMessage]\<rparr>) w)"

definition base_listen :: "sid \<Rightarrow> 'a handler \<Rightarrow> 'a world \<Rightarrow> (exn + subid) \<times> 'a world" where
  "base_listen s h w = (if subscription (streams w s) \<noteq> None then (Inl ErrorForListen, w)
     else (let k = next_sub w;
               w1 = w\<lparr>subs := (subs w)(k := new_subscription s h), next_sub := Suc k\<rparr>;
               w2 = upd_stream s (\<lambda>st. st\<lparr>subscription := Some k\<rparr>) w1
           in (Inr k, emit s (callEventListeners s ''onListen'' w2))))"

text \<open>
  \<^verbatim>\<open>_eventCallbacks\<close> is an object literal. For a name that is a property of
  \<^verbatim>\<open>Object.prototype\<close> the lookup \<^verbatim>\<open>this._eventCallbacks[name]\<close> finds the inherited value,
  which is truthy and has neither \<^verbatim>\<open>push\<close> nor \<^verbatim>\<open>filter\<close>: the array is never created and
  both methods throw a TypeError. For every other name a missing entry and an empty
  array behave alike.
\<close>

definition object_prototype_names :: "string list" where
  "object_prototype_names = [''constructor'', ''__defineGetter__'', ''__defineSetter__'',
     ''hasOwnProperty'', ''__lookupGetter__'', ''__lookupSetter__'', ''isPrototypeOf'',
     ''propertyIsEnumerable'', ''toString'', ''valueOf'', ''__proto__'', ''toLocaleString'']"

definition addEventListener :: "sid \<Rightarrow> string \<Rightarrow> cbid \<Rightarrow> 'a world \<Rightarrow> exn option \<times> 'a world" where
  "addEventListener s name c w =
     (if name \<in> set object_prototype_names then (Some TypeError, w)
      else (None, upd_stream s
        (\<lambda>st. st\<lparr>eventCallbacks := (eventCallbacks st)(name := eventCallbacks st name @ [c])\<rparr>) w))"

definition removeEventListener :: "sid \<Rightarrow> string \<Rightarrow> cbid \<Rightarrow> 'a world \<Rightarrow> exn option \<times> 'a world" where
  "removeEventListener s name c w =
     (if name \<in> set object_prototype_names then (Some TypeError, w)
      else (None, upd_stream s
        (\<lambda>st. st\<lparr>eventCallbacks :=
           (eventCallbacks st)(name := filter (\<lambda>c'. c' \<noteq> c) (eventCallbacks st name))\<rparr>) w))"

section \<open>The broadcast stream (\<^verbatim>\<open>class _broadcastStream\<close>)\<close>

text \<open>\<^verbatim>\<open>_subscribers\<close> is a JavaScript Set: a list without duplicates, in insertion order.\<close>

definition bc_cancel :: "sid \<Rightarrow> subid \<Rightarrow> 'a world \<Rightarrow> 'a world" where
  "bc_cancel s k w = callEventListeners s ''onCancel''
     (upd_stream s (\<lambda>st. st\<lparr>subscribers := removeAll k (subscribers st)\<rparr>)
        (log_event (Cancelled s k) w))"

text \<open>\<^verbatim>\<open>stream.cancel(sub)\<close>, dispatched on the class of the stream.\<close>

definition stream_cancel :: "sid \<Rightarrow> subid \<Rightarrow> 'a world \<Rightarrow> 'a world" where
  "stream_cancel s k w = (case kind (streams w s) of
       Broadcast p \<Rightarrow> bc_cancel s k w
     | Base \<Rightarrow> base_cancel s k w
     | Filtering p v \<Rightarrow> base_cancel s k w)"

text \<open>\<^verbatim>\<open>StreamSubscription.cancel()\<close>.\<close>

definition sub_cancel :: "subid \<Rightarrow> 'a world \<Rightarrow> 'a world" where
  "sub_cancel k w = stream_cancel (owner (subs w k)) k w"

definition bc_add :: "sid \<Rightarrow> 'a \<Rightarrow> 'a world \<Rightarrow> exn option \<times> 'a world" where
  "bc_add s d w = (if isClosed (streams w s) then (Some ErrorForAdd, w)
     else (None, nextTick (TFanout s (createDataMessage d)) w))"

definition bc_addError :: "sid \<Rightarrow> err_input \<Rightarrow> 'a world \<Rightarrow> exn option \<times> 'a world" where
  "bc_addError s m w = (if isClosed (streams w s) then (Some ErrorForAddError, w)
     else (None, nextTick (TFanout s (createErrorMessage m)) w))"

definition bc_close :: "sid \<Rightarrow> 'a world \<Rightarrow> 'a world" where
  "bc_close s w =
     (let w1 = upd_stream s (\<lambda>st. st\<lparr>isClosed := True\<rparr>) w;
          w2 = (case parentSubscription (streams w1 s) of
                  Some k \<Rightarrow> sub_cancel k w1 | None \<Rightarrow> w1);
          w3 = upd_stream s (\<lambda>st. st\<lparr>parentSubscription := None\<rparr>) w2
      in nextTick (TFanout s Done) w3)"

section \<open>Derived streams (\<^verbatim>\<open>class _filteringStream\<close> and its subclasses)\<close>

definition filtering_close :: "sid \<Rightarrow> 'a world \<Rightarrow> 'a world" where
  "filtering_close s w =
     (let w1 = (case fsub (streams w s) of Some k \<Rightarrow> sub_cancel k w | None \<Rightarrow> w);
          w2 = upd_stream s (\<lambda>st. st\<lparr>fsub := None\<rparr>) w1
      in base_close s w2)"

definition map_add :: "sid \<Rightarrow> ('a \<Rightarrow> 'a outcome) \<Rightarrow> 'a \<Rightarrow> 'a world \<Rightarrow> exn option \<times> 'a world" where
  "map_add s transform d w = (case transform d of
       Returns newData \<Rightarrow> base_add s newData w
     | Throws e \<Rightarrow> (Some e, w))"

definition take_add :: "sid \<Rightarrow> int \<Rightarrow> 'a \<Rightarrow> 'a world \<Rightarrow> exn option \<times> 'a world" where
  "take_add s takeAmount d w =
     and_then
       (if taken (streams w s) < takeAmount
        then and_then (base_add s d w)
               (\<lambda>w1. (None, upd_stream s (\<lambda>st. st\<lparr>taken := taken st + 1\<rparr>) w1))
        else (None, w))
       (\<lambda>w2. if taken (streams w2 s) \<ge> takeAmount then (None, filtering_close s w2)
              else (None, w2))"

text \<open>In \<^verbatim>\<open>_takeWhileStream.add\<close> the call \<^verbatim>\<open>super.add\<close> is inside the \<^verbatim>\<open>try\<close>, so its
  exception is caught as well.\<close>

definition takeWhile_add :: "sid \<Rightarrow> ('a \<Rightarrow> bool outcome) \<Rightarrow> 'a \<Rightarrow> 'a world
    \<Rightarrow> exn option \<times> 'a world" where
  "takeWhile_add s condition d w = (case condition d of
       Returns True \<Rightarrow> (case base_add s d w of
            (None, w1) \<Rightarrow> (None, w1)
          | (Some e, w1) \<Rightarrow> (None, filtering_close s w1))
     | Returns False \<Rightarrow> (None, filtering_close s w)
     | Throws e \<Rightarrow> (None, filtering_close s w))"

definition skip_add :: "sid \<Rightarrow> int \<Rightarrow> 'a \<Rightarrow> 'a world \<Rightarrow> exn option \<times> 'a world" where
  "skip_add s skipAmount d w =
     (if skipped (streams w s) < skipAmount
      then (None, upd_stream s (\<lambda>st. st\<lparr>skipped := skipped st + 1\<rparr>) w)
      else base_add s d w)"

definition skipWhile_add :: "sid \<Rightarrow> ('a \<Rightarrow> bool outcome) \<Rightarrow> 'a \<Rightarrow> 'a world
    \<Rightarrow> exn option \<times> 'a world" where
  "skipWhile_add s condition d w =
     (let proceed = base_add s d (upd_stream s (\<lambda>st. st\<lparr>isSkipping := False\<rparr>) w)
      in if isSkipping (streams w s)
         then (case condition d of
                 Returns True \<Rightarrow> (None, w)
               | Returns False \<Rightarrow> proceed
               | Throws e \<Rightarrow> proceed)
         else proceed)"

definition where_add :: "sid \<Rightarrow> ('a \<Rightarrow> bool outcome) \<Rightarrow> 'a \<Rightarrow> 'a world
    \<Rightarrow> exn option \<times> 'a world" where
  "where_add s condition d w = (case condition d of
       Returns True \<Rightarrow> base_add s d w
     | Returns False \<Rightarrow> (None, w)
     | Throws e \<Rightarrow> (Some e, w))"

section \<open>Method dispatch\<close>

definition add :: "sid \<Rightarrow> 'a \<Rightarrow> 'a world \<Rightarrow> exn option \<times> 'a world" where
  "add s d w = (case kind (streams w s) of
       Base \<Rightarrow> base_add s d w
     | Broadcast p \<Rightarrow> bc_add s d w
     | Filtering p v \<Rightarrow> (case v of
           FromStream \<Rightarrow> base_add s d w
         | MapS transform \<Rightarrow> map_add s transform d w
         | TakeS n \<Rightarrow> take_add s n d w
         | TakeWhileS c \<Rightarrow> takeWhile_add s c d w
         | SkipS n \<Rightarrow> skip_add s n d w
         | SkipWhileS c \<Rightarrow> skipWhile_add s c d w
         | WhereS c \<Rightarrow> where_add s c d w))"

definition addError :: "sid \<Rightarrow> err_input \<Rightarrow> 'a world \<Rightarrow> exn option \<times> 'a world" where
  "addError s m w = (case kind (streams w s) of
       Base \<Rightarrow> base_addError s m w
     | Broadcast p \<Rightarrow> bc_addError s m w
     | Filtering p v \<Rightarrow> base_addError s m w)"

definition close :: "sid \<Rightarrow> 'a world \<Rightarrow> 'a world" where
  "close s w = (case kind (streams w s) of
       Base \<Rightarrow> base_close s w
     | Broadcast p \<Rightarrow> bc_close s w
     | Filtering p v \<Rightarrow> filtering_close s w)"

definition stream_pause :: "sid \<Rightarrow> 'a world \<Rightarrow> 'a world" where
  "stream_pause s w = (case kind (streams w s) of
       Broadcast p \<Rightarrow> w
     | Base \<Rightarrow> base_pause s w
     | Filtering p v \<Rightarrow> base_pause s w)"

definition stream_resume :: "sid \<Rightarrow> 'a world \<Rightarrow> 'a world" where
  "stream_resume s w = (case kind (streams w s) of
       Broadcast p \<Rightarrow> w
     | Base \<Rightarrow> base_resume s w
     | Filtering p v \<Rightarrow> base_resume s w)"

section \<open>Terminal aggregators: their callbacks\<close>

text \<open>A callback of an aggregator does nothing but cancel its subscription and settle its
  promise, so it is the list of these actions in the order the source performs them,
  and the new values of the variables it closes over.\<close>

datatype 'a action = ACancel | ASettle "'a settled"

text \<open>\<^verbatim>\<open>cancelAndFulfill(v, sub, fulfill)\<close>: \<^verbatim>\<open>sub.cancel(); fulfill(v)\<close>.\<close>

definition cancelAndFulfill :: "'a jsval \<Rightarrow> ('a jsval \<Rightarrow> 'a settled) \<Rightarrow> 'a action list" where
  "cancelAndFulfill v fulfill = [ACancel, ASettle (fulfill v)]"

fun agg_onData :: "'a aggregator \<Rightarrow> 'a \<Rightarrow> 'a agg_state \<Rightarrow> 'a action list \<times> 'a agg_state" where
  "agg_onData (Every condition) d st = (case condition d of
       Returns True \<Rightarrow> ([], st)
     | Returns False \<Rightarrow> (cancelAndFulfill (VBool False) Rejected, st)
     | Throws e \<Rightarrow> (cancelAndFulfill (VBool False) Rejected, st))"
| "agg_onData First d st = (cancelAndFulfill (VData d) Resolved, st)"
| "agg_onData (FirstWhere condition) d st = (case condition d of
       Returns True \<Rightarrow> (cancelAndFulfill (VData d) Resolved, st)
     | Returns False \<Rightarrow> ([], st)
     | Throws e \<Rightarrow> (cancelAndFulfill (VErr e) Rejected, st))"
| "agg_onData (ForEach listener) d st = (case listener d of
       Returns u \<Rightarrow> ([], st)
     | Throws e \<Rightarrow> (cancelAndFulfill (VErr e) Rejected, st))"
| "agg_onData (Reduce reducer) d st =
     (if \<not> seenFirst st then ([], st\<lparr>acc := VData d, seenFirst := True\<rparr>)
      else (case reducer (acc st) d of
              Returns v \<Rightarrow> ([], st\<lparr>acc := v\<rparr>)
            | Throws e \<Rightarrow> (cancelAndFulfill (VErr e) Rejected, st)))"
| "agg_onData ToArray d st = ([], st\<lparr>result := result st @ [d]\<rparr>)"
| "agg_onData ToSet d st =
     ([], st\<lparr>result := (if d \<in> set (result st) then result st else result st @ [d])\<rparr>)"

fun agg_onError :: "'a aggregator \<Rightarrow> exn \<Rightarrow> 'a action list" where
  "agg_onError a e = cancelAndFulfill (VErr e) Rejected"

fun agg_onDone :: "'a aggregator \<Rightarrow> 'a agg_state \<Rightarrow> 'a action list" where
  "agg_onDone (Every condition) st = [ASettle (Resolved (VBool True))]"
| "agg_onDone First st = [ASettle (Rejected (VErr (ErrorObj [])))]"
| "agg_onDone (FirstWhere condition) st = cancelAndFulfill VNull Rejected"
| "agg_onDone (ForEach listener) st = [ASettle (Resolved VUndef)]"
| "agg_onDone (Reduce reducer) st = [ASettle (Resolved (acc st))]"
| "agg_onDone ToArray st = [ASettle (Resolved (VArray (result st)))]"
| "agg_onDone ToSet st = [ASettle (Resolved (VSet (result st)))]"

text \<open>\<^verbatim>\<open>resolve(v)\<close> and \<^verbatim>\<open>reject(v)\<close>: a promise settles once, later calls are ignored.\<close>

definition settle :: "pid \<Rightarrow> 'a settled \<Rightarrow> 'a world \<Rightarrow> 'a world" where
  "settle p v w = (if outcome_of (aggs w p) = None
     then log_event (Settled p v) (upd_agg p (\<lambda>st. st\<lparr>outcome_of := Some v\<rparr>) w)
     else w)"

fun run_action :: "subid \<Rightarrow> pid \<Rightarrow> 'a action \<Rightarrow> 'a world \<Rightarrow> 'a world" where
  "run_action k p ACancel w = sub_cancel k w"
| "run_action k p (ASettle v) w = settle p v w"

definition run_actions :: "subid \<Rightarrow> pid \<Rightarrow> 'a action list \<Rightarrow> 'a world \<Rightarrow> 'a world" where
  "run_actions k p acts w = foldl (\<lambda>w' a. run_action k p a w') w acts"

section \<open>StreamSubscription\<close>

text \<open>The body of the \<^verbatim>\<open>forEach\<close> in \<^verbatim>\<open>StreamSubscription._emit\<close>: one buffered message
  handed to the callback of its type.\<close>

definition deliver :: "subid \<Rightarrow> 'a message \<Rightarrow> 'a world \<Rightarrow> exn option \<times> 'a world" where
  "deliver k m w = (case handler (subs w k) of
       Wire c \<Rightarrow> (case m of
           Data d \<Rightarrow> add c d w
         | Error e \<Rightarrow> addError c (Err e) w
         | Done \<Rightarrow> (None, close c w))
     | Recorder l opts \<Rightarrow> (case m of
           Data d \<Rightarrow> (None, log_event (Received l (Data d)) w)
         | Error e \<Rightarrow>
             (let w1 = (if has_onError opts then log_event (Received l (Error e)) w else w)
              in (None, if cancelOnError opts then sub_cancel k w1 else w1))
         | Done \<Rightarrow> (None, if has_onDone opts then log_event (Received l Done) w else w))
     | Agg p a \<Rightarrow> (case m of
           Data d \<Rightarrow>
             (let r = agg_onData a d (aggs w p)
              in (None, run_actions k p (fst r) (upd_agg p (\<lambda>_. snd r) w)))
         | Error e \<Rightarrow> (None, run_actions k p (agg_onError a e) w)
         | Done \<Rightarrow> (None, run_actions k p (agg_onDone a (aggs w p)) w)))"

text \<open>\<^verbatim>\<open>_emit()\<close>: the buffer is cleared after the loop, so not when a callback throws.
  None of the handlers above reaches the subscription's own buffer, so the loop runs
  over the buffer as it is at the start.\<close>

definition sub_emit :: "subid \<Rightarrow> 'a world \<Rightarrow> exn option \<times> 'a world" where
  "sub_emit k w = (if sPaused (subs w k) then (None, w)
     else and_then (for_each (deliver k) (sbuffer (subs w k)) w)
            (\<lambda>w1. (None, upd_sub k (\<lambda>sb. sb\<lparr>sbuffer := []\<rparr>) w1)))"

definition messageHandler :: "subid \<Rightarrow> 'a message \<Rightarrow> 'a world \<Rightarrow> exn option \<times> 'a world" where
  "messageHandler k m w = sub_emit k (upd_sub k (\<lambda>sb. sb\<lparr>sbuffer := sbuffer sb @ [m]\<rparr>) w)"

text \<open>The buffer of subscription \<open>k\<close> replaced by \<open>ms\<close>.\<close>

definition set_sbuffer :: "subid \<Rightarrow> 'a message list \<Rightarrow> 'a world \<Rightarrow> 'a world" where
  "set_sbuffer k ms w = upd_sub k (\<lambda>sb. sb\<lparr>sbuffer := ms\<rparr>) w"

text \<open>The optional \<^verbatim>\<open>onPause\<close> and \<^verbatim>\<open>onResume\<close> callbacks exist for user listeners only.\<close>

definition pause_callback :: "subid \<Rightarrow> 'a world \<Rightarrow> 'a world" where
  "pause_callback k w = (case handler (subs w k) of
       Recorder l opts \<Rightarrow> (if has_onPause opts then log_event (PauseCb l) w else w)
     | Wire c \<Rightarrow> w
     | Agg p a \<Rightarrow> w)"

definition resume_callback :: "subid \<Rightarrow> 'a world \<Rightarrow> 'a world" where
  "resume_callback k w = (case handler (subs w k) of
       Recorder l opts \<Rightarrow> (if has_onResume opts then log_event (ResumeCb l) w else w)
     | Wire c \<Rightarrow> w
     | Agg p a \<Rightarrow> w)"

definition sub_pause :: "subid \<Rightarrow> 'a world \<Rightarrow> 'a world" where
  "sub_pause k w = (if \<not> sPaused (subs w k)
     then stream_pause (owner (subs w k))
            (pause_callback k (upd_sub k (\<lambda>sb. sb\<lparr>sPaused := True\<rparr>) w))
     else w)"

definition sub_resume :: "subid \<Rightarrow> 'a world \<Rightarrow> exn option \<times> 'a world" where
  "sub_resume k w = (if sPaused (subs w k)
     then sub_emit k (stream_resume (owner (subs w k))
            (resume_callback k (upd_sub k (\<lambda>sb. sb\<lparr>sPaused := False\<rparr>) w)))
     else (None, w))"

section \<open>Deferred tasks\<close>

text \<open>
  \<^item> \<open>TFlush s\<close>: the callback of \<^verbatim>\<open>Stream._emit\<close>; the subscription is read again for
    every message (\<open>flush_step\<close> is the body of the loop), the buffer is cleared after
    the loop, and a closed stream then cancels the subscription it still has
    (\<open>flush_finish\<close>).
  \<^item> \<open>TEvent s name\<close>: the callback of \<^verbatim>\<open>_callEventListeners\<close>.
  \<^item> \<open>TFanout s m\<close>: the callback of the broadcast stream's add, addError and close
    (\<open>fanout_step\<close> is the body of its loop). \<^verbatim>\<open>Set.forEach\<close> skips a member deleted
    before its turn; no handler adds a member.
\<close>

definition flush_step :: "sid \<Rightarrow> 'a message \<Rightarrow> 'a world \<Rightarrow> exn option \<times> 'a world" where
  "flush_step s m w = (case subscription (streams w s) of
       Some k \<Rightarrow> messageHandler k m w
     | None \<Rightarrow> (None, w))"

definition fanout_step :: "sid \<Rightarrow> 'a message \<Rightarrow> subid \<Rightarrow> 'a world \<Rightarrow> exn option \<times> 'a world" where
  "fanout_step s m k w = (if k \<in> set (subscribers (streams w s)) then messageHandler k m w
     else (None, w))"

definition flush_finish :: "sid \<Rightarrow> 'a world \<Rightarrow> exn option \<times> 'a world" where
  "flush_finish s w =
     (let w1 = upd_stream s (\<lambda>st. st\<lparr>buffer := []\<rparr>) w
      in (None, case subscription (streams w1 s) of
                  Some k \<Rightarrow> (if isClosed (streams w1 s) then base_cancel s k w1 else w1)
                | None \<Rightarrow> w1))"

fun run_task :: "'a task \<Rightarrow> 'a world \<Rightarrow> exn option \<times> 'a world" where
  "run_task (TFlush s) w =
     and_then (for_each (flush_step s) (buffer (streams w s)) w) (flush_finish s)"
| "run_task (TEvent s name) w =
     (None, foldl (\<lambda>w' c. log_event (Hook s name c) w') w (eventCallbacks (streams w s) name))"
| "run_task (TFanout s m) w = for_each (fanout_step s m) (subscribers (streams w s)) w"

text \<open>One turn of the host's queue: the oldest task runs to completion.\<close>

definition tick :: "'a world \<Rightarrow> exn option \<times> 'a world" where
  "tick w = (case queue w of
       [] \<Rightarrow> (None, w)
     | t # q \<Rightarrow> run_task t (w\<lparr>queue := q\<rparr>))"

text \<open>\<open>n\<close> turns; an uncaught exception of a task ends the run.\<close>

fun ticks :: "nat \<Rightarrow> 'a world \<Rightarrow> exn option \<times> 'a world" where
  "ticks 0 w = (None, w)"
| "ticks (Suc n) w = and_then (tick w) (ticks n)"

section \<open>listen\<close>

text \<open>
  \<open>bc_subscribe\<close> is the part of \<^verbatim>\<open>_broadcastStream.listen\<close> after the parent is
  subscribed: the new subscription joins the set, and a closed stream runs
  \<^verbatim>\<open>close()\<close> again.

  \<^verbatim>\<open>listen\<close> of a derived or broadcast stream first subscribes to the parent, which may
  be derived itself. A stream is constructed after its parent, so the parent's
  identifier is the smaller one; the recursion follows that order. (On a cyclic chain,
  which no constructor builds, the source overflows the stack.)
\<close>

definition bc_subscribe :: "sid \<Rightarrow> 'a handler \<Rightarrow> 'a world \<Rightarrow> (exn + subid) \<times> 'a world" where
  "bc_subscribe s h w =
     (let k = next_sub w;
          w1 = w\<lparr>subs := (subs w)(k := new_subscription s h), next_sub := Suc k\<rparr>;
          w2 = upd_stream s (\<lambda>st. st\<lparr>subscribers :=
                 (if k \<in> set (subscribers st) then subscribers st
                  else subscribers st @ [k])\<rparr>) w1;
          w3 = callEventListeners s ''onListen'' w2
      in (Inr k, if isClosed (streams w3 s) then bc_close s w3 else w3))"

function listen :: "sid \<Rightarrow> 'a handler \<Rightarrow> 'a world \<Rightarrow> (exn + subid) \<times> 'a world" where
  "listen s h w = (case kind (streams w s) of
       Base \<Rightarrow> base_listen s h w
     | Filtering p v \<Rightarrow>
         (if fsub (streams w s) = None
          then (if p < s
                then (case listen p (Wire s) w of
                        (Inl e, w1) \<Rightarrow> (Inl e, w1)
                      | (Inr k, w1) \<Rightarrow>
                          base_listen s h (upd_stream s (\<lambda>st. st\<lparr>fsub := Some k\<rparr>) w1))
                else (Inl RangeError, w))
          else base_listen s h w)
     | Broadcast p \<Rightarrow>
         (if parentSubscription (streams w s) = None
          then (if p < s
                then (case listen p (Wire s) w of
                        (Inl e, w1) \<Rightarrow> (Inl e, w1)
                      | (Inr k, w1) \<Rightarrow>
                          bc_subscribe s h
                            (upd_stream s (\<lambda>st. st\<lparr>parentSubscription := Some k\<rparr>) w1))
                else (Inl RangeError, w))
          else bc_subscribe s h w))"
  by pat_completeness auto
termination
  by (relation "measure (\<lambda>(s, h, w). s)") auto

section \<open>Constructors, aggregators, controller\<close>

definition new_stream :: "'a kind \<Rightarrow> 'a world \<Rightarrow> sid \<times> 'a world" where
  "new_stream k w = (next_stream w,
     w\<lparr>streams := (streams w)(next_stream w := new_stream_obj k),
       next_stream := Suc (next_stream w)\<rparr>)"

text \<open>\<^verbatim>\<open>map\<close>, \<^verbatim>\<open>take\<close>, \<^verbatim>\<open>takeWhile\<close>, \<^verbatim>\<open>skip\<close>, \<^verbatim>\<open>skipWhile\<close>, \<^verbatim>\<open>where\<close>, \<^verbatim>\<open>fromStream\<close>.\<close>

definition derive :: "sid \<Rightarrow> 'a variant \<Rightarrow> 'a world \<Rightarrow> sid \<times> 'a world" where
  "derive parent v w = new_stream (Filtering parent v) w"

definition asBroadcastStream :: "sid \<Rightarrow> 'a world \<Rightarrow> sid \<times> 'a world" where
  "asBroadcastStream parent w = new_stream (Broadcast parent) w"

text \<open>
  An aggregator creates its promise and listens inside the promise's executor; an
  exception of \<^verbatim>\<open>listen\<close> there rejects the promise. \<open>init\<close> is the \<^verbatim>\<open>initialValue\<close> of
  \<^verbatim>\<open>reduce\<close> (\<open>VUndef\<close> when it is left out, and for the other aggregators).
\<close>

definition aggregate :: "sid \<Rightarrow> 'a aggregator \<Rightarrow> 'a jsval \<Rightarrow> 'a world \<Rightarrow> pid \<times> 'a world" where
  "aggregate s a init w =
     (let p = next_agg w;
          st = new_agg_state\<lparr>acc := init,
                 seenFirst := (case init of VUndef \<Rightarrow> False | _ \<Rightarrow> True)\<rparr>;
          w1 = w\<lparr>aggs := (aggs w)(p := st), next_agg := Suc p\<rparr>
      in case listen s (Agg p a) w1 of
           (Inl e, w2) \<Rightarrow> (p, settle p (Rejected (VErr e)) w2)
         | (Inr k, w2) \<Rightarrow> (p, w2))"

definition every :: "sid \<Rightarrow> ('a \<Rightarrow> bool outcome) \<Rightarrow> 'a world \<Rightarrow> pid \<times> 'a world" where
  "every s condition w = aggregate s (Every condition) VUndef w"

definition first :: "sid \<Rightarrow> 'a world \<Rightarrow> pid \<times> 'a world" where
  "first s w = aggregate s First VUndef w"

definition firstWhere :: "sid \<Rightarrow> ('a \<Rightarrow> bool outcome) \<Rightarrow> 'a world \<Rightarrow> pid \<times> 'a world" where
  "firstWhere s condition w = aggregate s (FirstWhere condition) VUndef w"

definition forEach :: "sid \<Rightarrow> ('a \<Rightarrow> unit outcome) \<Rightarrow> 'a world \<Rightarrow> pid \<times> 'a world" where
  "forEach s listener w = aggregate s (ForEach listener) VUndef w"

definition reduce :: "sid \<Rightarrow> ('a jsval \<Rightarrow> 'a \<Rightarrow> 'a jsval outcome) \<Rightarrow> 'a jsval \<Rightarrow> 'a world
    \<Rightarrow> pid \<times> 'a world" where
  "reduce s reducer initialValue w = aggregate s (Reduce reducer) initialValue w"

definition toArray :: "sid \<Rightarrow> 'a world \<Rightarrow> pid \<times> 'a world" where
  "toArray s w = aggregate s ToArray VUndef w"

definition toSet :: "sid \<Rightarrow> 'a world \<Rightarrow> pid \<times> 'a world" where
  "toSet s w = aggregate s ToSet VUndef w"

text \<open>\<^verbatim>\<open>StreamController\<close>: the producer's stream and the stream handed to consumers.
  Its four hook callbacks are registered on the consumers' stream under the identifier 0.\<close>

record controller =
  srcStream :: sid
  dstStream :: sid

definition new_controller :: "bool \<Rightarrow> 'a world \<Rightarrow> controller \<times> 'a world" where
  "new_controller broadcast w =
     (let (src, w1) = new_stream Base w;
          (dst, w2) = (if broadcast then asBroadcastStream src w1 else (src, w1));
          w3 = snd (addEventListener dst ''onCancel'' 0
                 (snd (addEventListener dst ''onResume'' 0
                   (snd (addEventListener dst ''onPause'' 0
                     (snd (addEventListener dst ''onListen'' 0 w2)))))))
      in (\<lparr>srcStream = src, dstStream = dst\<rparr>, w3))"

definition controller_add :: "controller \<Rightarrow> 'a \<Rightarrow> 'a world \<Rightarrow> exn option \<times> 'a world" where
  "controller_add c d w = add (srcStream c) d w"

definition controller_addError :: "controller \<Rightarrow> err_input \<Rightarrow> 'a world \<Rightarrow> exn option \<times> 'a world" where
  "controller_addError c m w = addError (srcStream c) m w"

definition controller_close :: "controller \<Rightarrow> 'a world \<Rightarrow> 'a world" where
  "controller_close c w = close (srcStream c) w"

section \<open>Well-formed object graphs and example worlds\<close>

text \<open>
  What the constructors and \<^verbatim>\<open>listen\<close> establish about the references between objects:
  a derived or broadcast stream was constructed after its parent, and the subscription
  it holds on its parent (\<^verbatim>\<open>_sub\<close>, \<^verbatim>\<open>_parentSubscription\<close>) is owned by that parent.
\<close>

definition wf_world :: "'a world \<Rightarrow> bool" where
  "wf_world w = (\<forall>s. case kind (streams w s) of
       Base \<Rightarrow> True
     | Broadcast p \<Rightarrow> p < s \<and>
         (case parentSubscription (streams w s) of
            None \<Rightarrow> True | Some k \<Rightarrow> owner (subs w k) = p)
     | Filtering p v \<Rightarrow> p < s \<and>
         (case fsub (streams w s) of
            None \<Rightarrow> True | Some k \<Rightarrow> owner (subs w k) = p))"

text \<open>Subscription \<open>k\<close> is one that stream \<open>s\<close> delivers to: the subscription of a
  non-broadcast stream, a member of the subscriber set of a broadcast stream.\<close>

definition attached :: "'a world \<Rightarrow> sid \<Rightarrow> subid \<Rightarrow> bool" where
  "attached w s k = (case kind (streams w s) of
       Base \<Rightarrow> subscription (streams w s) = Some k
     | Filtering p v \<Rightarrow> subscription (streams w s) = Some k
     | Broadcast p \<Rightarrow> k \<in> set (subscribers (streams w s)))"

text \<open>The subscriptions a broadcast stream refers to were created by earlier \<^verbatim>\<open>listen\<close>
  calls: their identifiers are below the next one to be given out.\<close>

definition subs_allocated :: "'a world \<Rightarrow> sid \<Rightarrow> bool" where
  "subs_allocated w s \<longleftrightarrow>
     (case parentSubscription (streams w s) of None \<Rightarrow> True | Some k \<Rightarrow> k < next_sub w)
     \<and> list_all (\<lambda>k. k < next_sub w) (subscribers (streams w s))"

text \<open>Listen options with \<^verbatim>\<open>onError\<close> and \<^verbatim>\<open>onDone\<close> callbacks.\<close>

definition opts_all :: listen_options where
  "opts_all = \<lparr>has_onError = True, has_onDone = True, has_onPause = False,
     has_onResume = False, cancelOnError = False\<rparr>"

text \<open>\<^verbatim>\<open>const s = new Stream(); const t = s.take(2); t.listen(f7, {onError, onDone})\<close>:
  \<open>s\<close> is stream 0, \<open>t\<close> is stream 1.\<close>

definition ex_take_world :: "nat world" where
  "ex_take_world =
     (let (s, w1) = new_stream Base init_world;
          (t, w2) = derive s (TakeS 2) w1
      in snd (listen t (Recorder 7 opts_all) w2))"

text \<open>A predicate that throws on every value but 1 (the one of the test suite).\<close>

definition throwing_condition :: "nat \<Rightarrow> bool outcome" where
  "throwing_condition d = (if d = 1 then Returns True else Throws (ThrownVal ''not 1''))"

text \<open>\<^verbatim>\<open>s.where(c)\<close>, \<^verbatim>\<open>s.takeWhile(c)\<close> and \<^verbatim>\<open>s.skipWhile(c)\<close> of one stream \<open>s\<close>
  (streams 1, 2, 3 of stream 0), with a listener on the first.\<close>

definition ex_predicate_world :: "nat world" where
  "ex_predicate_world =
     (let (s, w1) = new_stream Base init_world;
          (t1, w2) = derive s (WhereS throwing_condition) w1;
          (t2, w3) = derive s (TakeWhileS throwing_condition) w2;
          (t3, w4) = derive s (SkipWhileS throwing_condition) w3
      in snd (listen t1 (Recorder 7 opts_all) w4))"

section \<open>Reference behaviour of \<^verbatim>\<open>every\<close>\<close>

text \<open>
  What the promise of \<^verbatim>\<open>every(condition)\<close> settles with when the messages \<open>ms\<close> are
  delivered in one flush: the first message that is not a value satisfying the
  condition decides.
\<close>

fun every_result :: "('a \<Rightarrow> bool outcome) \<Rightarrow> 'a message list \<Rightarrow> 'a settled option" where
  "every_result condition [] = None"
| "every_result condition (Data d # ms) =
     (case condition d of
        Returns True \<Rightarrow> every_result condition ms
      | Returns False \<Rightarrow> Some (Rejected (VBool False))
      | Throws e \<Rightarrow> Some (Rejected (VBool False)))"
| "every_result condition (Error e # ms) = Some (Rejected (VErr e))"
| "every_result condition (Done # ms) = Some (Resolved (VBool True))"

text \<open>
  The events of that flush, for the subscription \<open>k\<close> on stream \<open>s\<close> and the promise
  \<open>p\<close>; \<open>pending\<close> tells whether the promise is still unsettled, \<open>closed\<close> whether the
  stream is closed (it then cancels the subscription left after the flush).
\<close>

fun every_events :: "sid \<Rightarrow> subid \<Rightarrow> pid \<Rightarrow> ('a \<Rightarrow> bool outcome) \<Rightarrow> bool \<Rightarrow> bool
    \<Rightarrow> 'a message list \<Rightarrow> 'a event list" where
  "every_events s k p condition closed pending [] = (if closed then [Cancelled s k] else [])"
| "every_events s k p condition closed pending (Data d # ms) =
     (case condition d of
        Returns True \<Rightarrow> every_events s k p condition closed pending ms
      | Returns False \<Rightarrow>
          Cancelled s k # (if pending then [Settled p (Rejected (VBool False))] else [])
      | Throws e \<Rightarrow>
          Cancelled s k # (if pending then [Settled p (Rejected (VBool False))] else []))"
| "every_events s k p condition closed pending (Error e # ms) =
     Cancelled s k # (if pending then [Settled p (Rejected (VErr e))] else [])"
| "every_events s k p condition closed pending (Done # ms) =
     (if pending then [Settled p (Resolved (VBool True))] else [])
     @ every_events s k p condition closed False ms"

text \<open>The subscription \<open>k\<close> of \<^verbatim>\<open>every(c)\<close> with promise \<open>p\<close>, in the state \<^verbatim>\<open>every\<close> creates it
  in; nobody else holds it, so it is never paused.\<close>

definition every_sub :: "'a world \<Rightarrow> subid \<Rightarrow> pid \<Rightarrow> ('a \<Rightarrow> bool outcome) \<Rightarrow> bool" where
  "every_sub w k p c \<longleftrightarrow> handler (subs w k) = Agg p (Every c)
     \<and> \<not> sPaused (subs w k) \<and> sbuffer (subs w k) = []"

text \<open>Whether the callback of \<^verbatim>\<open>every(c)\<close> for the message \<open>m\<close> cancels the subscription.\<close>

fun every_cancels :: "('a \<Rightarrow> bool outcome) \<Rightarrow> 'a message \<Rightarrow> bool" where
  "every_cancels c (Data d) = (c d \<noteq> Returns True)"
| "every_cancels c (Error e) = True"
| "every_cancels c Done = False"

text \<open>An aggregator's subscription \<open>k\<close> is the active subscription of the non-broadcast
  stream \<open>s\<close>, with nothing buffered.\<close>

definition agg_attached :: "'a world \<Rightarrow> sid \<Rightarrow> subid \<Rightarrow> pid \<Rightarrow> 'a aggregator \<Rightarrow> bool" where
  "agg_attached w s k p a \<longleftrightarrow>
     (case kind (streams w s) of Broadcast q \<Rightarrow> False | _ \<Rightarrow> True)
     \<and> subscription (streams w s) = Some k \<and> owner (subs w k) = s
     \<and> handler (subs w k) = Agg p a \<and> \<not> sPaused (subs w k) \<and> sbuffer (subs w k) = []"

text \<open>The events of the hook callbacks registered under \<open>name\<close>.\<close>

definition hook_events :: "'a world \<Rightarrow> sid \<Rightarrow> string \<Rightarrow> 'a event list" where
  "hook_events w s name = map (Hook s name) (eventCallbacks (streams w s) name)"

section \<open>Order of cancelling and settling in one callback of an aggregator\<close>

text \<open>\<open>evs\<close> are the events of one callback: nothing, or the subscription is cancelled
  and then the promise settles.\<close>

definition cancels_first :: "sid \<Rightarrow> subid \<Rightarrow> pid \<Rightarrow> 'a event list \<Rightarrow> bool" where
  "cancels_first s k p evs \<longleftrightarrow> evs = [] \<or> (\<exists>v. evs = [Cancelled s k, Settled p v])"

text \<open>The events of the \<^verbatim>\<open>onDone\<close> callback: only \<^verbatim>\<open>firstWhere\<close> cancels.\<close>

definition done_events :: "'a aggregator \<Rightarrow> sid \<Rightarrow> subid \<Rightarrow> pid \<Rightarrow> 'a event list \<Rightarrow> bool" where
  "done_events a s k p evs = (case a of
       FirstWhere c \<Rightarrow> evs = [Cancelled s k, Settled p (Rejected VNull)]
     | Every c \<Rightarrow> evs = [Settled p (Resolved (VBool True))]
     | First \<Rightarrow> evs = [Settled p (Rejected (VErr (ErrorObj [])))]
     | ForEach f \<Rightarrow> evs = [Settled p (Resolved VUndef)]
     | Reduce r \<Rightarrow> (\<exists>v. evs = [Settled p (Resolved v)])
     | ToArray \<Rightarrow> (\<exists>xs. evs = [Settled p (Resolved (VArray xs))])
     | ToSet \<Rightarrow> (\<exists>xs. evs = [Settled p (Resolved (VSet xs))]))"

text \<open>\<^verbatim>\<open>stream.add(1); stream.add(2); stream.close()\<close> on a new stream (stream 0), as in
  the test suite, and the predicate \<^verbatim>\<open>data % 2 === 0\<close>.\<close>

definition ex_closed_stream :: "nat world" where
  "ex_closed_stream =
     (let (s, w1) = new_stream Base init_world;
          (e1, w2) = add s 1 w1;
          (e2, w3) = add s 2 w2
      in close s w3)"

definition even_condition :: "nat \<Rightarrow> bool outcome" where
  "even_condition d = Returns (d mod 2 = 0)"

text \<open>\<^verbatim>\<open>stream.every(cond)\<close> and \<^verbatim>\<open>stream.toArray()\<close> on that stream, before and after the
  two deferred tasks have run.\<close>

definition ex_every_final :: "nat world" where
  "ex_every_final = snd (ticks 2 (snd (every 0 even_condition ex_closed_stream)))"

definition ex_toArray_start :: "nat world" where
  "ex_toArray_start = snd (toArray 0 ex_closed_stream)"

definition ex_toArray_final :: "nat world" where
  "ex_toArray_final = snd (ticks 2 ex_toArray_start)"

section \<open>User listeners\<close>

text \<open>The recording listener \<open>l\<close> holds the active subscription \<open>k\<close> of stream \<open>s\<close>, not
  paused and with nothing buffered.\<close>

definition rec_attached :: "'a world \<Rightarrow> sid \<Rightarrow> subid \<Rightarrow> lid \<Rightarrow> listen_options \<Rightarrow> bool" where
  "rec_attached w s k l opts \<longleftrightarrow>
     subscription (streams w s) = Some k
     \<and> handler (subs w k) = Recorder l opts \<and> \<not> sPaused (subs w k) \<and> sbuffer (subs w k) = []"

text \<open>The messages the listener \<open>l\<close> has received, in order.\<close>

fun received :: "lid \<Rightarrow> 'a event list \<Rightarrow> 'a message list" where
  "received l [] = []"
| "received l (Received l' m # evs) = (if l' = l then m # received l evs else received l evs)"
| "received l (ev # evs) = received l evs"




section \<open>Programs: sequences of calls\<close>

text \<open>
  The calls a program can make on the objects of the store, and the host running the
  oldest deferred task (\<open>OpTick\<close>). A call that throws leaves the store as it is at the
  throw, and the program goes on. \<open>OpListen\<close> takes any handler, so it also stands for
  the \<^verbatim>\<open>listen\<close> calls made by \<^verbatim>\<open>addStream\<close> and by other library code.
\<close>

datatype 'a op =
    OpNewStream
  | OpDerive sid "'a variant"
  | OpBroadcast sid
  | OpAdd sid 'a
  | OpAddError sid err_input
  | OpClose sid
  | OpListen sid "'a handler"
  | OpAggregate sid "'a aggregator" "'a jsval"
  | OpSubPause subid
  | OpSubResume subid
  | OpSubCancel subid
  | OpStreamPause sid
  | OpStreamResume sid
  | OpAddEventListener sid string cbid
  | OpRemoveEventListener sid string cbid
  | OpTick

fun step :: "'a op \<Rightarrow> 'a world \<Rightarrow> 'a world" where
  "step OpNewStream w = snd (new_stream Base w)"
| "step (OpDerive p v) w = snd (derive p v w)"
| "step (OpBroadcast p) w = snd (asBroadcastStream p w)"
| "step (OpAdd s d) w = snd (add s d w)"
| "step (OpAddError s m) w = snd (addError s m w)"
| "step (OpClose s) w = close s w"
| "step (OpListen s h) w = snd (listen s h w)"
| "step (OpAggregate s a init) w = snd (aggregate s a init w)"
| "step (OpSubPause k) w = sub_pause k w"
| "step (OpSubResume k) w = snd (sub_resume k w)"
| "step (OpSubCancel k) w = sub_cancel k w"
| "step (OpStreamPause s) w = stream_pause s w"
| "step (OpStreamResume s) w = stream_resume s w"
| "step (OpAddEventListener s name c) w = snd (addEventListener s name c w)"
| "step (OpRemoveEventListener s name c) w = snd (removeEventListener s name c w)"
| "step OpTick w = snd (tick w)"

fun run :: "'a op list \<Rightarrow> 'a world \<Rightarrow> 'a world" where
  "run [] w = w"
| "run (op # ops) w = run ops (step op w)"




section \<open>Shape of the outbound buffer\<close>

text \<open>Every message after a Done message is a Done message.\<close>

fun only_done :: "'a message list \<Rightarrow> bool" where
  "only_done [] = True"
| "only_done (Done # ms) = only_done ms"
| "only_done (Data d # ms) = False"
| "only_done (Error e # ms) = False"

fun dones_last :: "'a message list \<Rightarrow> bool" where
  "dones_last [] = True"
| "dones_last (Done # ms) = only_done ms"
| "dones_last (Data d # ms) = dones_last ms"
| "dones_last (Error e # ms) = dones_last ms"

fun has_done :: "'a message list \<Rightarrow> bool" where
  "has_done [] = False"
| "has_done (Done # ms) = True"
| "has_done (Data d # ms) = has_done ms"
| "has_done (Error e # ms) = has_done ms"

text \<open>A buffer holds a Done message only if the stream is closed, and then only Done
  messages follow it.\<close>

definition buffer_ok :: "'a stream \<Rightarrow> bool" where
  "buffer_ok st \<longleftrightarrow> dones_last (buffer st) \<and> (isClosed st \<or> \<not> has_done (buffer st))"

definition buffers_ok :: "'a world \<Rightarrow> bool" where
  "buffers_ok w \<longleftrightarrow> (\<forall>s. buffer_ok (streams w s))"

text \<open>\<^verbatim>\<open>stream.close(); stream.close()\<close> on a new stream.\<close>

definition ex_closed_twice :: "nat world" where
  "ex_closed_twice = run [OpNewStream, OpClose 0, OpClose 0] init_world"

text \<open>
  What a program keeps of the store \<open>w0\<close> it started from: no stream object is lost,
  no stream changes its class, a closed stream stays closed, and all buffers keep
  their shape.
\<close>

definition closed_kept :: "'a world \<Rightarrow> 'a world \<Rightarrow> bool" where
  "closed_kept w0 w \<longleftrightarrow> next_stream w0 \<le> next_stream w
     \<and> (\<forall>s. s \<ge> next_stream w0 \<or>
            (kind (streams w s) = kind (streams w0 s)
             \<and> (isClosed (streams w s) \<or> \<not> isClosed (streams w0 s))))"

definition stream_inv :: "'a world \<Rightarrow> 'a world \<Rightarrow> bool" where
  "stream_inv w0 w \<longleftrightarrow> buffers_ok w \<and> closed_kept w0 w"

text \<open>\<^verbatim>\<open>add(1); close()\<close> on a new stream, and calls made after that.\<close>

definition ex_closed_once :: "nat world" where
  "ex_closed_once = run [OpNewStream, OpAdd 0 1, OpClose 0] init_world"

definition ex_after_close_ops :: "nat op list" where
  "ex_after_close_ops = [OpClose 0, OpAdd 0 5, OpListen 0 (Recorder 7 opts_all), OpTick]"

text \<open>The store after \<^verbatim>\<open>const t = s.take(1); t.add(7)\<close>: the take stream (stream 1) has
  closed itself.\<close>

definition ex_taken :: "nat world" where
  "ex_taken = run [OpNewStream, OpDerive 0 (TakeS 1), OpAdd 1 7] init_world"

text \<open>
  What \<^verbatim>\<open>add(d)\<close> throws on a closed stream, by class: \<open>None\<close> where the override returns
  without reaching the inherited \<^verbatim>\<open>add\<close>.
\<close>

definition closed_add :: "'a stream \<Rightarrow> 'a \<Rightarrow> exn option" where
  "closed_add st d = (case kind st of
       Base \<Rightarrow> Some ErrorForAdd
     | Broadcast p \<Rightarrow> Some ErrorForAdd
     | Filtering p v \<Rightarrow> (case v of
           FromStream \<Rightarrow> Some ErrorForAdd
         | MapS transform \<Rightarrow>
             (case transform d of Returns x \<Rightarrow> Some ErrorForAdd | Throws e \<Rightarrow> Some e)
         | TakeS n \<Rightarrow> (if taken st < n then Some ErrorForAdd else None)
         | TakeWhileS c \<Rightarrow> None
         | SkipS n \<Rightarrow> (if skipped st < n then None else Some ErrorForAdd)
         | SkipWhileS c \<Rightarrow>
             (if isSkipping st \<and> c d = Returns True then None else Some ErrorForAdd)
         | WhereS c \<Rightarrow>
             (case c d of Returns b \<Rightarrow> (if b then Some ErrorForAdd else None)
                        | Throws e \<Rightarrow> Some e)))"

definition is_broadcast :: "'a stream \<Rightarrow> bool" where
  "is_broadcast st = (case kind st of Broadcast p \<Rightarrow> True | Base \<Rightarrow> False
     | Filtering p v \<Rightarrow> False)"

section \<open>\<^verbatim>\<open>Stream.fromPromises\<close>\<close>

text \<open>
  The promises of the iterable are named by numbers. \<^verbatim>\<open>fromPromises\<close> creates a
  controller and, for each promise, increments \<^verbatim>\<open>count\<close> and registers the callbacks
  \<^verbatim>\<open>onData\<close> and \<^verbatim>\<open>onError\<close> with \<^verbatim>\<open>then\<close>; \<open>fp_waiting\<close> lists the promises whose
  callbacks are registered and not yet called. The host calls one of the two
  callbacks when such a promise settles (\<open>fp_settle\<close>).
\<close>

record from_promises =
  fp_controller :: controller
  fp_count :: int
  fp_waiting :: "nat list"

datatype 'a promise_result = Fulfilled 'a | RejectedWith err_input

definition fp_register :: "from_promises \<Rightarrow> nat \<Rightarrow> from_promises" where
  "fp_register fp p = fp\<lparr>fp_count := fp_count fp + 1, fp_waiting := fp_waiting fp @ [p]\<rparr>"

definition fromPromises :: "nat list \<Rightarrow> 'a world \<Rightarrow> from_promises \<times> 'a world" where
  "fromPromises promises w =
     (let (c, w1) = new_controller False w;
          fp = \<lparr>fp_controller = c, fp_count = 0, fp_waiting = []\<rparr>
      in (foldl fp_register fp promises, w1))"

text \<open>The common part of \<^verbatim>\<open>onData\<close> and \<^verbatim>\<open>onError\<close> after the message is added:
  \<^verbatim>\<open>if (--count === 0) streamController.close()\<close>.\<close>

definition fp_countdown :: "from_promises \<Rightarrow> 'a world \<Rightarrow> from_promises \<times> 'a world" where
  "fp_countdown fp w =
     (let fp1 = fp\<lparr>fp_count := fp_count fp - 1\<rparr>
      in if fp_count fp1 = 0 then (fp1, controller_close (fp_controller fp1) w) else (fp1, w))"

definition fp_onData :: "from_promises \<Rightarrow> 'a \<Rightarrow> 'a world \<Rightarrow> exn option \<times> from_promises \<times> 'a world" where
  "fp_onData fp d w =
     (if \<not> isClosed (streams w (srcStream (fp_controller fp)))
      then (case controller_add (fp_controller fp) d w of
              (None, w1) \<Rightarrow> (None, fp_countdown fp w1)
            | (Some e, w1) \<Rightarrow> (Some e, fp, w1))
      else (None, fp, w))"

definition fp_onError :: "from_promises \<Rightarrow> err_input \<Rightarrow> 'a world
    \<Rightarrow> exn option \<times> from_promises \<times> 'a world" where
  "fp_onError fp m w =
     (if \<not> isClosed (streams w (srcStream (fp_controller fp)))
      then (case controller_addError (fp_controller fp) m w of
              (None, w1) \<Rightarrow> (None, fp_countdown fp w1)
            | (Some e, w1) \<Rightarrow> (Some e, fp, w1))
      else (None, fp, w))"

definition fp_settle :: "nat \<Rightarrow> 'a promise_result \<Rightarrow> from_promises \<times> 'a world
    \<Rightarrow> from_promises \<times> 'a world" where
  "fp_settle p r x =
     (case x of (fp, w) \<Rightarrow>
        if p \<in> set (fp_waiting fp)
        then (let fp1 = fp\<lparr>fp_waiting := remove1 p (fp_waiting fp)\<rparr>
              in case r of
                   Fulfilled d \<Rightarrow> snd (fp_onData fp1 d w)
                 | RejectedWith m \<Rightarrow> snd (fp_onError fp1 m w))
        else (fp, w))"

text \<open>A program around the stream of \<^verbatim>\<open>fromPromises\<close>: calls on the store, and promises
  that settle.\<close>

datatype 'a fp_op = Call "'a op" | Settles nat "'a promise_result"

fun fp_step :: "'a fp_op \<Rightarrow> from_promises \<times> 'a world \<Rightarrow> from_promises \<times> 'a world" where
  "fp_step (Call op) x = (fst x, step op (snd x))"
| "fp_step (Settles p r) x = fp_settle p r x"

fun fp_run :: "'a fp_op list \<Rightarrow> from_promises \<times> 'a world \<Rightarrow> from_promises \<times> 'a world" where
  "fp_run [] x = x"
| "fp_run (op # ops) x = fp_run ops (fp_step op x)"

text \<open>
  The calls that code outside \<^verbatim>\<open>fromPromises\<close> cannot make on its stream \<open>s\<close>: the
  controller is a local variable there, so nobody else calls \<^verbatim>\<open>close\<close> on \<open>s\<close>, and only
  a stream derived from \<open>s\<close> passes its own methods to \<^verbatim>\<open>listen\<close>.
\<close>

fun outside_call :: "sid \<Rightarrow> 'a fp_op \<Rightarrow> bool" where
  "outside_call s (Call (OpClose c)) = (c \<noteq> s)"
| "outside_call s (Call (OpListen c h)) = (h \<noteq> Wire s)"
| "outside_call s op = True"

text \<open>Stream \<open>s\<close> is an open base stream without a Done message, and no subscription
  holds its \<^verbatim>\<open>close\<close> method.\<close>

definition open_inv :: "sid \<Rightarrow> 'a world \<Rightarrow> bool" where
  "open_inv s w \<longleftrightarrow> s < next_stream w \<and> kind (streams w s) = Base
     \<and> \<not> isClosed (streams w s) \<and> \<not> has_done (buffer (streams w s))
     \<and> (\<forall>k. handler (subs w k) \<noteq> Wire s)"

text \<open>A program around \<^verbatim>\<open>Stream.fromPromises([])\<close> called on the empty store: a listener and
  \<^verbatim>\<open>toArray\<close> on a stream derived from it, some deferred tasks, and a promise that is not
  in the iterable and settles.\<close>

definition ex_fp_ops :: "nat fp_op list" where
  "ex_fp_ops = [Call (OpListen 0 (Recorder 7 opts_all)), Call OpTick, Call OpTick,
     Call (OpDerive 0 (TakeS 1)), Call (OpAggregate 1 ToArray VUndef), Settles 3 (Fulfilled 5),
     Call OpTick, Call OpTick, Call OpTick]"

definition ex_fp_start :: "from_promises \<times> nat world" where
  "ex_fp_start = fromPromises [] init_world"

section \<open>Broadcast fan-out to user listeners\<close>

text \<open>Subscription \<open>k\<close> belongs to a recording listener, is not paused and has nothing
  buffered.\<close>

definition plain_recorder :: "'a world \<Rightarrow> subid \<Rightarrow> bool" where
  "plain_recorder w k = (case handler (subs w k) of
       Recorder l opts \<Rightarrow> \<not> sPaused (subs w k) \<and> sbuffer (subs w k) = []
     | Wire c \<Rightarrow> False
     | Agg p a \<Rightarrow> False)"

text \<open>The callback of a recording listener that a Data or Done message reaches.\<close>

definition recorder_events :: "'a world \<Rightarrow> 'a message \<Rightarrow> subid \<Rightarrow> 'a event list" where
  "recorder_events w m k = (case handler (subs w k) of
       Recorder l opts \<Rightarrow> (case m of
           Data d \<Rightarrow> [Received l (Data d)]
         | Error e \<Rightarrow> (if has_onError opts then [Received l (Error e)] else [])
         | Done \<Rightarrow> (if has_onDone opts then [Received l Done] else []))
     | Wire c \<Rightarrow> []
     | Agg p a \<Rightarrow> [])"










section \<open>take: the listener's view and the invariant of a run\<close>

text \<open>The program adds values to stream \<open>s\<close> and the host runs deferred tasks, in any
  order; \<open>added s ops\<close> are the values added, in order.\<close>

fun feeds :: "sid \<Rightarrow> 'a op \<Rightarrow> bool" where
  "feeds s (OpAdd c d) = (c = s)"
| "feeds s OpTick = True"
| "feeds s op = False"

fun added :: "sid \<Rightarrow> 'a op list \<Rightarrow> 'a list" where
  "added s [] = []"
| "added s (OpAdd c d # ops) = (if c = s then d # added s ops else added s ops)"
| "added s (op # ops) = added s ops"

text \<open>
  The objects of a run of \<^verbatim>\<open>s.take(n)\<close> with one listener: the parent \<open>s\<close>, the take
  stream \<open>t\<close>, the subscription of \<open>t\<close> on \<open>s\<close>, the subscription of the listener on \<open>t\<close>,
  the listener and its options, \<open>n\<close>, and what the listener had received before.
\<close>

record 'a take_setup =
  ts_parent :: sid
  ts_take :: sid
  ts_psub :: subid
  ts_lsub :: subid
  ts_lid :: lid
  ts_opts :: listen_options
  ts_n :: nat
  ts_before :: "'a message list"

fun take_task :: "sid \<Rightarrow> sid \<Rightarrow> 'a task \<Rightarrow> bool" where
  "take_task s t (TFlush c) = (c = s \<or> c = t)"
| "take_task s t (TEvent c name) = True"
| "take_task s t (TFanout c m) = False"

text \<open>What never changes during the run.\<close>

definition take_common :: "'a take_setup \<Rightarrow> 'a world \<Rightarrow> bool" where
  "take_common c w \<longleftrightarrow>
     ts_parent c \<noteq> ts_take c \<and> ts_psub c \<noteq> ts_lsub c \<and> 0 < ts_n c
     \<and> has_onDone (ts_opts c)
     \<and> kind (streams w (ts_parent c)) = Base
     \<and> kind (streams w (ts_take c)) = Filtering (ts_parent c) (TakeS (int (ts_n c)))
     \<and> \<not> isClosed (streams w (ts_parent c))
     \<and> \<not> isPaused (streams w (ts_parent c)) \<and> \<not> isPaused (streams w (ts_take c))
     \<and> owner (subs w (ts_psub c)) = ts_parent c
     \<and> handler (subs w (ts_psub c)) = Wire (ts_take c)
     \<and> sbuffer (subs w (ts_psub c)) = [] \<and> \<not> sPaused (subs w (ts_psub c))
     \<and> owner (subs w (ts_lsub c)) = ts_take c
     \<and> handler (subs w (ts_lsub c)) = Recorder (ts_lid c) (ts_opts c)
     \<and> sbuffer (subs w (ts_lsub c)) = [] \<and> \<not> sPaused (subs w (ts_lsub c))
     \<and> list_all (take_task (ts_parent c) (ts_take c)) (queue w)"

text \<open>
  The three phases. \<open>ys\<close> are the values added to the parent so far; \<open>rest\<close> are those
  the parent has not handed to the take stream yet.
  Taking: fewer than \<open>n\<close> values were handed over; some of them (\<open>rcv\<close>) have reached
  the listener, the others (\<open>tb\<close>) wait in the buffer of the take stream.
\<close>

definition take_open :: "'a take_setup \<Rightarrow> 'a world \<Rightarrow> 'a list \<Rightarrow> 'a list \<Rightarrow> bool" where
  "take_open c w ys rest \<longleftrightarrow>
     subscription (streams w (ts_parent c)) = Some (ts_psub c)
     \<and> fsub (streams w (ts_take c)) = Some (ts_psub c)
     \<and> \<not> isClosed (streams w (ts_take c))
     \<and> subscription (streams w (ts_take c)) = Some (ts_lsub c)
     \<and> (\<exists>rcv tb. received (ts_lid c) (trace w) = ts_before c @ map Data rcv
           \<and> buffer (streams w (ts_take c)) = map Data tb
           \<and> rcv @ tb @ rest = ys
           \<and> taken (streams w (ts_take c)) = int (length rcv + length tb)
           \<and> length rcv + length tb < ts_n c
           \<and> (tb = [] \<or> TFlush (ts_take c) \<in> set (queue w)))"

text \<open>Closed: \<open>n\<close> values were handed over, the take stream has closed itself and
  cancelled its subscription on the parent; Done waits in its buffer.\<close>

definition take_closing :: "'a take_setup \<Rightarrow> 'a world \<Rightarrow> 'a list \<Rightarrow> bool" where
  "take_closing c w ys \<longleftrightarrow>
     subscription (streams w (ts_parent c)) = None
     \<and> fsub (streams w (ts_take c)) = None
     \<and> isClosed (streams w (ts_take c))
     \<and> subscription (streams w (ts_take c)) = Some (ts_lsub c)
     \<and> (\<exists>rcv tb. received (ts_lid c) (trace w) = ts_before c @ map Data rcv
           \<and> buffer (streams w (ts_take c)) = map Data tb @ [Done]
           \<and> rcv @ tb = take (ts_n c) ys)
     \<and> ts_n c \<le> length ys
     \<and> TFlush (ts_take c) \<in> set (queue w)
     \<and> Cancelled (ts_parent c) (ts_psub c) \<in> set (trace w)"

text \<open>Finished: the listener has received the first \<open>n\<close> values and Done, and the take
  stream has cancelled the listener's subscription.\<close>

definition take_done :: "'a take_setup \<Rightarrow> 'a world \<Rightarrow> 'a list \<Rightarrow> bool" where
  "take_done c w ys \<longleftrightarrow>
     subscription (streams w (ts_parent c)) = None
     \<and> fsub (streams w (ts_take c)) = None
     \<and> isClosed (streams w (ts_take c))
     \<and> subscription (streams w (ts_take c)) = None
     \<and> buffer (streams w (ts_take c)) = []
     \<and> received (ts_lid c) (trace w) = ts_before c @ map Data (take (ts_n c) ys) @ [Done]
     \<and> ts_n c \<le> length ys
     \<and> Cancelled (ts_parent c) (ts_psub c) \<in> set (trace w)"

definition take_phase :: "'a take_setup \<Rightarrow> 'a world \<Rightarrow> 'a list \<Rightarrow> 'a list \<Rightarrow> bool" where
  "take_phase c w ys rest \<longleftrightarrow>
     take_common c w \<and> (take_open c w ys rest \<or> take_closing c w ys \<or> take_done c w ys)"

text \<open>Between two tasks the values not yet handed over are the buffer of the parent,
  and a flush of the parent is queued whenever there are any to hand over.\<close>

definition take_inv :: "'a take_setup \<Rightarrow> 'a world \<Rightarrow> 'a list \<Rightarrow> bool" where
  "take_inv c w ys \<longleftrightarrow>
     (\<exists>pend. buffer (streams w (ts_parent c)) = map Data pend
        \<and> take_phase c w ys pend
        \<and> (pend = [] \<or> subscription (streams w (ts_parent c)) = None
             \<or> TFlush (ts_parent c) \<in> set (queue w)))"

text \<open>A bound on the number of tasks still to run.\<close>

definition take_potential :: "'a take_setup \<Rightarrow> 'a world \<Rightarrow> nat \<Rightarrow> nat" where
  "take_potential c w pending =
     length (queue w)
     + (if subscription (streams w (ts_parent c)) = None then 0 else pending + 2)
     + (if subscription (streams w (ts_take c)) = None then 0 else 1)"

section \<open>Basic facts\<close>

declare listen.simps [simp del]

lemmas world_defs = new_stream_def derive_def asBroadcastStream_def init_world_def
  new_stream_obj_def base_listen_def emit_def callEventListeners_def nextTick_def
  upd_stream_def new_subscription_def Let_def

lemma and_then_simps [simp]:
  "and_then (None, w) f = f w"
  "and_then (Some e, w) f = (Some e, w)"
  by (simp_all add: and_then_def)

lemma streams_upd_stream [simp]:
  "streams (upd_stream s f w) = (streams w)(s := f (streams w s))"
  by (simp add: upd_stream_def)

lemma wf_parent_less:
  "wf_world w \<Longrightarrow> kind (streams w s) = Filtering p v \<Longrightarrow> p < s"
  "wf_world w \<Longrightarrow> kind (streams w s) = Broadcast p \<Longrightarrow> p < s"
  unfolding wf_world_def by (drule_tac x=s in spec, simp)+

lemma wf_parent_owner:
  "wf_world w \<Longrightarrow> kind (streams w s) = Broadcast p \<Longrightarrow>
   parentSubscription (streams w s) = Some k \<Longrightarrow> owner (subs w k) = p"
  unfolding wf_world_def by (drule_tac x=s in spec, simp)

section \<open>listen: what it changes and how it fails\<close>

lemma base_listen_frame:
  "s' \<noteq> s \<Longrightarrow> streams (snd (base_listen s h w)) s' = streams w s'"
  by (simp add: base_listen_def Let_def emit_def callEventListeners_def nextTick_def)

lemma base_listen_error:
  "fst (base_listen s h w) = Inl e \<Longrightarrow> e = ErrorForListen"
  by (simp add: base_listen_def Let_def split: if_splits)

lemma base_listen_owner:
  "fst (base_listen s h w) = Inr k \<Longrightarrow> owner (subs (snd (base_listen s h w)) k) = s"
  by (auto simp add: base_listen_def Let_def emit_def callEventListeners_def nextTick_def
      upd_stream_def new_subscription_def split: if_splits)

lemma sub_cancel_frame:
  "owner (subs w k) \<noteq> s' \<Longrightarrow> streams (sub_cancel k w) s' = streams w s'"
  by (simp add: sub_cancel_def stream_cancel_def base_cancel_def bc_cancel_def
      callEventListeners_def nextTick_def log_event_def split: kind.splits)

lemma sub_cancel_subs [simp]: "subs (sub_cancel k w) = subs w"
  by (simp add: sub_cancel_def stream_cancel_def base_cancel_def bc_cancel_def
      callEventListeners_def nextTick_def log_event_def upd_stream_def split: kind.splits)

lemma bc_close_subs [simp]: "subs (bc_close s w) = subs w"
  by (simp add: bc_close_def Let_def nextTick_def upd_stream_def split: option.splits)

lemma bc_close_frame:
  "s' \<noteq> s \<Longrightarrow>
   (case parentSubscription (streams w s) of
      None \<Rightarrow> True | Some k \<Rightarrow> owner (subs w k) \<noteq> s') \<Longrightarrow>
   streams (bc_close s w) s' = streams w s'"
  by (simp add: bc_close_def Let_def nextTick_def sub_cancel_frame upd_stream_def
      split: option.splits)

lemma bc_subscribe_owner:
  "fst (bc_subscribe s h w) = Inr k \<Longrightarrow> owner (subs (snd (bc_subscribe s h w)) k) = s"
  by (auto simp add: bc_subscribe_def Let_def callEventListeners_def nextTick_def
      upd_stream_def new_subscription_def)

lemma bc_subscribe_frame:
  "s' \<noteq> s \<Longrightarrow>
   (case parentSubscription (streams w s) of
      None \<Rightarrow> True | Some k \<Rightarrow> owner (subs w k) \<noteq> s') \<Longrightarrow>
   streams (snd (bc_subscribe s h w)) s' = streams w s'"
  by (auto simp add: bc_subscribe_def Let_def callEventListeners_def nextTick_def
      bc_close_frame upd_stream_def new_subscription_def split: option.splits)

lemma listen_owner:
  "fst (listen s h w) = Inr k \<Longrightarrow> owner (subs (snd (listen s h w)) k) = s"
  by (cases "kind (streams w s)")
     (auto simp add: listen.simps[of s h w] base_listen_owner bc_subscribe_owner
        split: prod.splits sum.splits if_splits)

text \<open>\<^verbatim>\<open>listen\<close> on a stream touches that stream and its ancestors only.\<close>

lemma listen_frame:
  "wf_world w \<Longrightarrow> s < s' \<Longrightarrow> streams (snd (listen s h w)) s' = streams w s'"
proof (induction s h w rule: listen.induct)
  case (1 s h w)
  show ?case
  proof (cases "kind (streams w s)")
    case Base
    then show ?thesis using 1(4) by (simp add: listen.simps[of s h w] base_listen_frame)
  next
    case (Broadcast p)
    have pl: "p < s" using wf_parent_less(2)[OF 1(3) Broadcast] .
    show ?thesis
    proof (cases "parentSubscription (streams w s)")
      case None
      obtain r w1 where L: "listen p (Wire s) w = (r, w1)" by (cases "listen p (Wire s) w")
      have F: "streams w1 s' = streams w s'"
        using 1(1)[OF Broadcast None pl 1(3)] pl 1(4) L by simp
      show ?thesis
      proof (cases r)
        case (Inl e)
        then show ?thesis using Broadcast None pl L F
          by (simp add: listen.simps[of s h w])
      next
        case (Inr k)
        have O: "owner (subs w1 k) = p" using listen_owner[of p "Wire s" w k] L Inr by simp
        have "streams (snd (bc_subscribe s h
                (upd_stream s (\<lambda>st. st\<lparr>parentSubscription := Some k\<rparr>) w1))) s' = streams w1 s'"
          using O pl 1(4) by (subst bc_subscribe_frame) (auto simp: upd_stream_def)
        then show ?thesis using Broadcast None pl L F Inr
          by (simp add: listen.simps[of s h w])
      qed
    next
      case (Some k)
      have "owner (subs w k) = p" using wf_parent_owner[OF 1(3) Broadcast Some] .
      then have "streams (snd (bc_subscribe s h w)) s' = streams w s'"
        using pl 1(4) Some by (subst bc_subscribe_frame) auto
      then show ?thesis using Broadcast Some
        by (simp add: listen.simps[of s h w])
    qed
  next
    case (Filtering p v)
    then show ?thesis using 1(2)[OF Filtering] 1(3,4)
      by (auto simp add: listen.simps[of s h w] base_listen_frame split: prod.splits sum.splits)
  qed
qed

text \<open>The only exception \<^verbatim>\<open>listen\<close> throws is \<^verbatim>\<open>ErrorForListen\<close>.\<close>

lemma listen_error:
  "wf_world w \<Longrightarrow> fst (listen s h w) = Inl e \<Longrightarrow> e = ErrorForListen"
proof (induction s h w arbitrary: e rule: listen.induct)
  case (1 s h w)
  show ?case
  proof (cases "kind (streams w s)")
    case Base
    then show ?thesis using 1(4) by (simp add: listen.simps[of s h w] base_listen_error)
  next
    case (Broadcast p)
    then show ?thesis
      using 1(1)[OF Broadcast _ _ 1(3)] 1(4) wf_parent_less(2)[OF 1(3) Broadcast]
      by (auto simp add: listen.simps[of s h w] bc_subscribe_def Let_def
          split: prod.splits sum.splits if_splits)
  next
    case (Filtering p v)
    then show ?thesis
      using 1(2)[OF Filtering _ _ 1(3)] 1(4) wf_parent_less(1)[OF 1(3) Filtering]
      by (auto simp add: listen.simps[of s h w] Let_def base_listen_error
          split: prod.splits sum.splits if_splits)
  qed
qed

lemma ex_take_world_sub: "subscription (streams ex_take_world 1) = Some 1"
  by (simp add: ex_take_world_def world_defs listen.simps)

lemma ex_take_world_wf: "wf_world ex_take_world"
  by (simp add: wf_world_def ex_take_world_def world_defs listen.simps)

lemma ex_take_world_kind: "\<forall>p. kind (streams ex_take_world 1) \<noteq> Broadcast p"
  by (simp add: ex_take_world_def world_defs listen.simps)

text \<open>
  Claim C8. A non-broadcast stream (the base class or any derived stream) that has an
  active subscription rejects every further \<^verbatim>\<open>listen\<close>: the call throws
  \<^verbatim>\<open>ErrorForListen\<close> synchronously and the stream keeps the subscription it had.
\<close>

theorem listen_twice_fails:
  assumes "wf_world w"
    and "\<forall>p. kind (streams w s) \<noteq> Broadcast p"
    and "subscription (streams w s) = Some k"
  shows "fst (listen s h w) = Inl ErrorForListen
       \<and> subscription (streams (snd (listen s h w)) s) = Some k"
proof (cases "kind (streams w s)")
  case Base
  then show ?thesis using assms(3) by (simp add: listen.simps[of s h w] base_listen_def)
next
  case (Broadcast p)
  then show ?thesis using assms(2) by simp
next
  case (Filtering p v)
  have pl: "p < s" using wf_parent_less(1)[OF assms(1) Filtering] .
  obtain r w1 where L: "listen p (Wire s) w = (r, w1)" by (cases "listen p (Wire s) w")
  have F: "streams w1 s = streams w s" using listen_frame[OF assms(1) pl, of "Wire s"] L by simp
  show ?thesis
  proof (cases "fsub (streams w s)")
    case None
    show ?thesis
    proof (cases r)
      case (Inl e)
      then have "e = ErrorForListen" using listen_error[OF assms(1), of p "Wire s" e] L by simp
      then show ?thesis using Filtering None pl L F Inl assms(3)
        by (simp add: listen.simps[of s h w])
    next
      case (Inr k')
      then show ?thesis using Filtering None pl L F assms(3)
        by (simp add: listen.simps[of s h w] base_listen_def)
    qed
  next
    case (Some a)
    then show ?thesis using Filtering assms(3)
      by (simp add: listen.simps[of s h w] base_listen_def)
  qed
qed

theorem listen_twice_fails_witness:
  "wf_world ex_take_world
   \<and> (\<forall>p. kind (streams ex_take_world 1) \<noteq> Broadcast p)
   \<and> subscription (streams ex_take_world 1) = Some 1
   \<and> fst (listen 1 (Recorder 8 opts_all) ex_take_world) = Inl ErrorForListen
   \<and> subscription (streams (snd (listen 1 (Recorder 8 opts_all) ex_take_world)) 1) = Some 1"
  using listen_twice_fails[OF ex_take_world_wf ex_take_world_kind ex_take_world_sub,
      of "Recorder 8 opts_all"]
    ex_take_world_wf ex_take_world_kind ex_take_world_sub
  by simp

section \<open>Predicates that throw\<close>

lemma filtering_close_buffer:
  "buffer (streams (filtering_close s w) s) = buffer (streams w s) @ [Done]"
  by (simp add: filtering_close_def Let_def base_close_def emit_def nextTick_def
      sub_cancel_def stream_cancel_def base_cancel_def bc_cancel_def callEventListeners_def
      log_event_def createDoneMessage_def upd_stream_def split: option.splits kind.splits)

lemma filtering_close_closed:
  "isClosed (streams (filtering_close s w) s) \<and> fsub (streams (filtering_close s w) s) = None"
  by (simp add: filtering_close_def Let_def base_close_def emit_def nextTick_def
      upd_stream_def split: option.splits kind.splits)

lemma ex_predicate_world_facts:
  "kind (streams ex_predicate_world 1) = Filtering 0 (WhereS throwing_condition)"
  "handler (subs ex_predicate_world 0) = Wire 1"
  "kind (streams ex_predicate_world 2) = Filtering 0 (TakeWhileS throwing_condition)"
  "kind (streams ex_predicate_world 3) = Filtering 0 (SkipWhileS throwing_condition)"
  "isSkipping (streams ex_predicate_world 3)"
  "\<not> isClosed (streams ex_predicate_world 3)"
  by (simp_all add: ex_predicate_world_def world_defs listen.simps)

text \<open>
  Claim C7. Let the user predicate throw \<open>e\<close> on the value \<open>d\<close>.
  In a \<^verbatim>\<open>where\<close> stream, \<^verbatim>\<open>add\<close> throws \<open>e\<close> and changes nothing, and so does the
  callback of the parent's subscription that called it.
  In a \<^verbatim>\<open>takeWhile\<close> stream, \<^verbatim>\<open>add\<close> returns normally: the stream is closed, and its
  buffer gains a Done message and not the value.
  In a \<^verbatim>\<open>skipWhile\<close> stream that is still skipping (the only time the predicate is
  called), \<^verbatim>\<open>add\<close> returns normally, the stream stops skipping and republishes the value.
\<close>

theorem predicate_throws:
  assumes "condition d = Throws e"
    and "kind (streams w s1) = Filtering p1 (WhereS condition)"
    and "handler (subs w k) = Wire s1"
    and "kind (streams w s2) = Filtering p2 (TakeWhileS condition)"
    and "kind (streams w s3) = Filtering p3 (SkipWhileS condition)"
    and "isSkipping (streams w s3)"
    and "\<not> isClosed (streams w s3)"
  shows "add s1 d w = (Some e, w)
       \<and> deliver k (Data d) w = (Some e, w)
       \<and> add s2 d w = (None, filtering_close s2 w)
       \<and> isClosed (streams (snd (add s2 d w)) s2)
       \<and> buffer (streams (snd (add s2 d w)) s2) = buffer (streams w s2) @ [Done]
       \<and> fst (add s3 d w) = None
       \<and> \<not> isSkipping (streams (snd (add s3 d w)) s3)
       \<and> buffer (streams (snd (add s3 d w)) s3) = buffer (streams w s3) @ [Data d]"
proof -
  have a1: "add s1 d w = (Some e, w)"
    using assms(1,2) by (simp add: add_def where_add_def)
  have a2: "add s2 d w = (None, filtering_close s2 w)"
    using assms(1,4) by (simp add: add_def takeWhile_add_def)
  have a3: "add s3 d w = base_add s3 d (upd_stream s3 (\<lambda>st. st\<lparr>isSkipping := False\<rparr>) w)"
    using assms(1,5,6) by (simp add: add_def skipWhile_add_def)
  have a3': "add s3 d w =
      (None, emit s3 (upd_stream s3 (\<lambda>st. st\<lparr>buffer := buffer st @ [Data d]\<rparr>)
         (upd_stream s3 (\<lambda>st. st\<lparr>isSkipping := False\<rparr>) w)))"
    using assms(7) unfolding a3 by (simp add: base_add_def)
  show ?thesis
    using a1 a2 assms(3) filtering_close_buffer[of s2 w] filtering_close_closed[of s2 w]
    by (simp add: a3' deliver_def emit_def nextTick_def)
qed

theorem predicate_throws_witness:
  "throwing_condition 2 = Throws (ThrownVal ''not 1'')
   \<and> kind (streams ex_predicate_world 1) = Filtering 0 (WhereS throwing_condition)
   \<and> handler (subs ex_predicate_world 0) = Wire 1
   \<and> kind (streams ex_predicate_world 2) = Filtering 0 (TakeWhileS throwing_condition)
   \<and> kind (streams ex_predicate_world 3) = Filtering 0 (SkipWhileS throwing_condition)
   \<and> isSkipping (streams ex_predicate_world 3)
   \<and> \<not> isClosed (streams ex_predicate_world 3)
   \<and> add 1 2 ex_predicate_world = (Some (ThrownVal ''not 1''), ex_predicate_world)
   \<and> deliver 0 (Data 2) ex_predicate_world = (Some (ThrownVal ''not 1''), ex_predicate_world)
   \<and> add 2 2 ex_predicate_world = (None, filtering_close 2 ex_predicate_world)
   \<and> isClosed (streams (snd (add 2 2 ex_predicate_world)) 2)
   \<and> buffer (streams (snd (add 2 2 ex_predicate_world)) 2)
       = buffer (streams ex_predicate_world 2) @ [Done]
   \<and> fst (add 3 2 ex_predicate_world) = None
   \<and> \<not> isSkipping (streams (snd (add 3 2 ex_predicate_world)) 3)
   \<and> buffer (streams (snd (add 3 2 ex_predicate_world)) 3)
       = buffer (streams ex_predicate_world 3) @ [Data 2]"
proof -
  have c: "throwing_condition 2 = Throws (ThrownVal ''not 1'')"
    by (simp add: throwing_condition_def)
  show ?thesis
    using predicate_throws[OF c ex_predicate_world_facts] c ex_predicate_world_facts
    by blast
qed

section \<open>Aggregators\<close>

lemma flush_step_no_sub:
  "subscription (streams w s) = None \<Longrightarrow> for_each (flush_step s) ms w = (None, w)"
  by (induction ms) (simp_all add: flush_step_def)

lemma sbuffer_reset_triv: "sbuffer sb = [] \<Longrightarrow> sb\<lparr>sbuffer := []\<rparr> = sb"
  by (cases sb) simp

lemma subs_reset_triv [simp]:
  "sbuffer (f k) = [] \<Longrightarrow> f(k := f k\<lparr>sbuffer := []\<rparr>) = f"
  by (simp add: sbuffer_reset_triv)

lemmas cancel_defs = sub_cancel_def stream_cancel_def base_cancel_def bc_cancel_def
  callEventListeners_def nextTick_def log_event_def upd_stream_def

lemma trace_sub_cancel [simp]:
  "trace (sub_cancel k w) = trace w @ [Cancelled (owner (subs w k)) k]"
  by (simp add: cancel_defs split: kind.splits)

lemma aggs_sub_cancel [simp]: "aggs (sub_cancel k w) = aggs w"
  by (simp add: cancel_defs split: kind.splits)

lemma trace_settle:
  "trace (settle p v w) = trace w @ (if outcome_of (aggs w p) = None then [Settled p v] else [])"
  by (simp add: settle_def log_event_def upd_agg_def)

lemma settle_fields [simp]:
  "streams (settle p v w) = streams w"
  "subs (settle p v w) = subs w"
  "queue (settle p v w) = queue w"
  by (simp_all add: settle_def log_event_def upd_agg_def)

lemma outcome_settle:
  "outcome_of (aggs (settle p v w) p)
     = (case outcome_of (aggs w p) of None \<Rightarrow> Some v | Some u \<Rightarrow> Some u)"
  by (simp add: settle_def log_event_def upd_agg_def split: option.splits)

lemma outcome_agg_onData [simp]: "outcome_of (snd (agg_onData a d st)) = outcome_of st"
  by (cases a) (auto split: outcome.splits bool.splits)

lemma agg_onData_actions:
  "fst (agg_onData a d st) = [] \<or> (\<exists>v. fst (agg_onData a d st) = [ACancel, ASettle v])"
  by (cases a) (auto simp: cancelAndFulfill_def split: outcome.splits bool.splits)

lemma run_actions_Nil [simp]: "run_actions k p [] w = w"
  by (simp add: run_actions_def)

lemma run_actions_cancel_settle [simp]:
  "run_actions k p [ACancel, ASettle v] w = settle p v (sub_cancel k w)"
  by (simp add: run_actions_def)

lemma run_actions_settle [simp]:
  "run_actions k p [ASettle v] w = settle p v w"
  by (simp add: run_actions_def)

text \<open>
  Claim C5 (amended). In every callback of every aggregator that is run for a value or
  for an upstream error, the subscription is cancelled before the promise settles (or
  nothing happens). In the callback for Done only \<^verbatim>\<open>firstWhere\<close> cancels first; the six
  others settle the promise and do not cancel.
\<close>

theorem aggregator_cancel_order:
  assumes "handler (subs w k) = Agg p a"
    and "outcome_of (aggs w p) = None"
  shows "(\<exists>evs. trace (snd (deliver k (Data d) w)) = trace w @ evs
             \<and> cancels_first (owner (subs w k)) k p evs)
       \<and> (\<exists>evs. trace (snd (deliver k (Error e) w)) = trace w @ evs
             \<and> cancels_first (owner (subs w k)) k p evs)
       \<and> (\<exists>evs. trace (snd (deliver k Done w)) = trace w @ evs
             \<and> done_events a (owner (subs w k)) k p evs)"
proof -
  have d: "\<exists>evs. trace (snd (deliver k (Data d) w)) = trace w @ evs
             \<and> cancels_first (owner (subs w k)) k p evs"
    using assms agg_onData_actions[of a d "aggs w p"]
    by (auto simp add: deliver_def Let_def cancels_first_def trace_settle upd_agg_def)
  have e: "\<exists>evs. trace (snd (deliver k (Error e) w)) = trace w @ evs
             \<and> cancels_first (owner (subs w k)) k p evs"
    using assms
    by (simp add: deliver_def cancels_first_def trace_settle cancelAndFulfill_def)
  have n: "\<exists>evs. trace (snd (deliver k Done w)) = trace w @ evs
             \<and> done_events a (owner (subs w k)) k p evs"
    using assms
    by (cases a) (simp_all add: deliver_def done_events_def trace_settle cancelAndFulfill_def)
  show ?thesis using d e n by blast
qed

section \<open>every\<close>

lemma agg_attached_settle [simp]:
  "agg_attached (settle p' v w) s k p a = agg_attached w s k p a"
  by (simp add: agg_attached_def)

lemma sub_cancel_attached:
  assumes "agg_attached w s k p a"
  shows "sub_cancel k w = base_cancel s k w"
  using assms
  by (auto simp add: agg_attached_def sub_cancel_def stream_cancel_def split: kind.splits)

lemma base_cancel_fields [simp]:
  "subscription (streams (base_cancel s k w) s) = None"
  "isClosed (streams (base_cancel s k w) s') = isClosed (streams w s')"
  "trace (base_cancel s k w) = trace w @ [Cancelled s k]"
  "aggs (base_cancel s k w) = aggs w"
  by (simp_all add: cancel_defs)

text \<open>One message handed to the subscription of an attached aggregator.\<close>

lemma flush_step_agg_data:
  assumes "agg_attached w s k p a"
  shows "flush_step s (Data d) w =
     (None, run_actions k p (fst (agg_onData a d (aggs w p)))
               (upd_agg p (\<lambda>_. snd (agg_onData a d (aggs w p))) w))"
  using assms agg_onData_actions[of a d "aggs w p"]
  by (auto simp add: flush_step_def agg_attached_def messageHandler_def sub_emit_def upd_sub_def
      deliver_def Let_def upd_agg_def settle_def cancel_defs split: kind.splits)

lemma flush_step_agg_error:
  assumes "agg_attached w s k p a"
  shows "flush_step s (Error e) w = (None, settle p (Rejected (VErr e)) (base_cancel s k w))"
  using assms 
  by (auto simp add: flush_step_def agg_attached_def messageHandler_def sub_emit_def upd_sub_def
      deliver_def Let_def upd_agg_def settle_def cancel_defs cancelAndFulfill_def
      split: kind.splits)

lemma flush_step_every_done:
  assumes "agg_attached w s k p (Every c)"
  shows "flush_step s Done w = (None, settle p (Resolved (VBool True)) w)"
  using assms 
  by (auto simp add: flush_step_def agg_attached_def messageHandler_def sub_emit_def upd_sub_def
      deliver_def Let_def upd_agg_def settle_def cancel_defs cancelAndFulfill_def
      split: kind.splits)

lemma flush_step_every_good:
  assumes "agg_attached w s k p (Every c)" "c d = Returns True"
  shows "flush_step s (Data d) w = (None, w)"
  using flush_step_agg_data[OF assms(1), of d] assms(2) by (simp add: upd_agg_def)

lemma flush_step_every_bad:
  assumes "agg_attached w s k p (Every c)" "c d \<noteq> Returns True"
  shows "flush_step s (Data d) w = (None, settle p (Rejected (VBool False)) (base_cancel s k w))"
  using flush_step_agg_data[OF assms(1), of d] assms(2) sub_cancel_attached[OF assms(1)]
  by (cases "c d") (auto simp add: upd_agg_def cancelAndFulfill_def split: bool.splits)

lemma flush_finish_no_sub:
  "subscription (streams w s) = None \<Longrightarrow>
   flush_finish s w = (None, upd_stream s (\<lambda>st. st\<lparr>buffer := []\<rparr>) w)"
  by (simp add: flush_finish_def Let_def)

lemma flush_finish_sub:
  "subscription (streams w s) = Some k \<Longrightarrow>
   flush_finish s w = (None, if isClosed (streams w s)
      then base_cancel s k (upd_stream s (\<lambda>st. st\<lparr>buffer := []\<rparr>) w)
      else upd_stream s (\<lambda>st. st\<lparr>buffer := []\<rparr>) w)"
  by (simp add: flush_finish_def Let_def)

lemma upd_stream_fields [simp]:
  "trace (upd_stream s f w) = trace w"
  "aggs (upd_stream s f w) = aggs w"
  "subs (upd_stream s f w) = subs w"
  "queue (upd_stream s f w) = queue w"
  by (simp_all add: upd_stream_def)

text \<open>The flush of the messages \<open>ms\<close> to the subscription of \<^verbatim>\<open>every\<close>.\<close>

lemma every_flush:
  assumes "agg_attached w s k p (Every c)"
  shows "fst (and_then (for_each (flush_step s) ms w) (flush_finish s)) = None
       \<and> outcome_of (aggs (snd (and_then (for_each (flush_step s) ms w) (flush_finish s))) p)
           = (case outcome_of (aggs w p) of None \<Rightarrow> every_result c ms | Some v \<Rightarrow> Some v)
       \<and> trace (snd (and_then (for_each (flush_step s) ms w) (flush_finish s)))
           = trace w @ every_events s k p c (isClosed (streams w s))
                         (outcome_of (aggs w p) = None) ms"
  using assms
proof (induction ms arbitrary: w)
  case Nil
  then have "subscription (streams w s) = Some k" by (simp add: agg_attached_def)
  then show ?case by (simp add: flush_finish_sub split: option.splits)
next
  case (Cons m ms)
  note att = Cons.prems
  show ?case
  proof (cases m)
    case (Data d)
    show ?thesis
    proof (cases "c d = Returns True")
      case True
      then show ?thesis
        using Cons.IH[OF att] Data flush_step_every_good[OF att True]
        by (simp split: option.splits)
    next
      case False
      let ?w1 = "settle p (Rejected (VBool False)) (base_cancel s k w)"
      have st: "flush_step s m w = (None, ?w1)"
        using flush_step_every_bad[OF att False] Data by simp
      have n: "subscription (streams ?w1 s) = None" by simp
      have "for_each (flush_step s) ms ?w1 = (None, ?w1)" using n by (rule flush_step_no_sub)
      then show ?thesis using st False Data n
        by (cases "c d")
           (auto simp add: outcome_settle trace_settle flush_finish_no_sub
              split: option.splits bool.splits)
    qed
  next
    case (Error e)
    let ?w1 = "settle p (Rejected (VErr e)) (base_cancel s k w)"
    have st: "flush_step s m w = (None, ?w1)"
      using flush_step_agg_error[OF att] Error by simp
    have n: "subscription (streams ?w1 s) = None" by simp
    have "for_each (flush_step s) ms ?w1 = (None, ?w1)" using n by (rule flush_step_no_sub)
    then show ?thesis using st Error n
      by (auto simp add: outcome_settle trace_settle flush_finish_no_sub split: option.splits)
  next
    case Done
    let ?w1 = "settle p (Resolved (VBool True)) w"
    have st: "flush_step s m w = (None, ?w1)"
      using flush_step_every_done[OF att] Done by simp
    have "agg_attached ?w1 s k p (Every c)" using att by simp
    from Cons.IH[OF this] show ?thesis using st Done
      by (auto simp add: outcome_settle trace_settle split: option.splits)
  qed
qed


lemma hooks_fold:
  "foldl (\<lambda>w' c. log_event (Hook s name c) w') w cs = w\<lparr>trace := trace w @ map (Hook s name) cs\<rparr>"
  by (induction cs arbitrary: w) (simp_all add: log_event_def)

lemma ticks_2: "ticks 2 w = and_then (tick w) (\<lambda>w1. tick w1)"
  by (simp add: numeral_2_eq_2 and_then_def split: prod.splits option.splits)

text \<open>\<^verbatim>\<open>every\<close> on a base stream without listener whose buffer holds messages, and the
  two deferred tasks it leaves.\<close>

lemma every_buffered:
  assumes "kind (streams w s) = Base"
    and "subscription (streams w s) = None"
    and "\<not> isPaused (streams w s)"
    and "queue w = []"
    and "every s c w = (p, w1)"
    and "ticks 2 w1 = (e, w2)"
  shows "e = None
       \<and> outcome_of (aggs w2 p) = every_result c (buffer (streams w s))
       \<and> trace w2 = trace w @ hook_events w s ''onListen''
           @ every_events s (next_sub w) p c (isClosed (streams w s)) True (buffer (streams w s))"
proof -
  define k where "k = next_sub w"
  define st where "st = new_agg_state\<lparr>acc := (VUndef :: 'a jsval), seenFirst := False\<rparr>"
  define wl where "wl = w\<lparr>aggs := (aggs w)(next_agg w := st), next_agg := Suc (next_agg w),
      subs := (subs w)(k := new_subscription s (Agg (next_agg w) (Every c))), next_sub := Suc k,
      streams := (streams w)(s := (streams w s)\<lparr>subscription := Some k\<rparr>),
      queue := [TEvent s ''onListen'', TFlush s]\<rparr>"
  have ev: "every s c w = (next_agg w, wl)"
    using assms(1-4)
    by (simp add: every_def aggregate_def Let_def listen.simps base_listen_def emit_def
        callEventListeners_def nextTick_def upd_stream_def wl_def k_def st_def)
  then have p: "p = next_agg w" and w1: "w1 = wl" using assms(5) by simp_all
  define wf where "wf = wl\<lparr>queue := [], trace := trace w @ hook_events w s ''onListen''\<rparr>"
  have t1: "tick wl = (None, wf\<lparr>queue := [TFlush s]\<rparr>)"
    by (simp add: tick_def wl_def wf_def hooks_fold hook_events_def)
  have "wf\<lparr>queue := [TFlush s], queue := []\<rparr> = wf"
    by (simp add: wf_def)
  then have t2: "tick (wf\<lparr>queue := [TFlush s]\<rparr>)
      = and_then (for_each (flush_step s) (buffer (streams w s)) wf) (flush_finish s)"
    by (simp add: tick_def) (simp add: wf_def wl_def)
  have att: "agg_attached wf s k p (Every c)"
    using assms(1) by (simp add: agg_attached_def wf_def wl_def new_subscription_def p)
  have pend: "outcome_of (aggs wf p) = None"
    by (simp add: wf_def wl_def p st_def new_agg_state_def)
  have cl: "isClosed (streams wf s) = isClosed (streams w s)" "trace wf = trace w @ hook_events w s ''onListen''"
    by (simp_all add: wf_def wl_def)
  have "ticks 2 w1 = and_then (for_each (flush_step s) (buffer (streams w s)) wf) (flush_finish s)"
    unfolding ticks_2 w1 t1 using t2 by simp
  then have R: "and_then (for_each (flush_step s) (buffer (streams w s)) wf) (flush_finish s)
      = (e, w2)"
    using assms(6) by simp
  show ?thesis
    using every_flush[OF att, of "buffer (streams w s)"] pend cl k_def unfolding R
    by simp
qed

text \<open>The subscription that \<^verbatim>\<open>listen\<close> creates.\<close>

lemma base_listen_result:
  assumes "base_listen s h w = (Inr k, w1)"
  shows "k = next_sub w \<and> next_sub w1 = Suc k \<and> subs w1 = (subs w)(k := new_subscription s h)
       \<and> subscription (streams w1 s) = Some k \<and> kind (streams w1 s) = kind (streams w s)
       \<and> aggs w1 = aggs w"
  using assms
  by (auto simp add: base_listen_def Let_def emit_def callEventListeners_def nextTick_def
      upd_stream_def split: if_splits)

lemma listen_next_sub:
  "fst (listen s h w) = Inr k \<Longrightarrow> next_sub (snd (listen s h w)) = Suc k"
  by (cases "kind (streams w s)")
     (auto simp add: listen.simps[of s h w] base_listen_def bc_subscribe_def Let_def emit_def
        callEventListeners_def nextTick_def upd_stream_def bc_close_def cancel_defs
        split: prod.splits sum.splits if_splits option.splits kind.splits)

lemma aggs_bc_close [simp]: "aggs (bc_close s w) = aggs w"
  by (simp add: bc_close_def Let_def nextTick_def split: option.splits)

lemma listen_aggs: "aggs (snd (listen s h w)) = aggs w"
proof (induction s h w rule: listen.induct)
  case (1 s h w)
  show ?case
  proof (cases "kind (streams w s)")
    case Base
    then show ?thesis
      by (simp add: listen.simps[of s h w] base_listen_def Let_def emit_def
          callEventListeners_def nextTick_def)
  next
    case (Broadcast p)
    then show ?thesis using 1(1)[OF Broadcast]
      by (auto simp add: listen.simps[of s h w] bc_subscribe_def Let_def
          callEventListeners_def nextTick_def split: prod.splits sum.splits)
  next
    case (Filtering p v)
    then show ?thesis using 1(2)[OF Filtering]
      by (auto simp add: listen.simps[of s h w] base_listen_def Let_def emit_def
          callEventListeners_def nextTick_def split: prod.splits sum.splits)
  qed
qed


lemma next_sub_bc_close [simp]: "next_sub (bc_close s w) = next_sub w"
  by (simp add: bc_close_def Let_def nextTick_def cancel_defs split: option.splits kind.splits)

lemma listen_next_sub_mono: "next_sub w \<le> next_sub (snd (listen s h w))"
proof (induction s h w rule: listen.induct)
  case (1 s h w)
  show ?case
  proof (cases "kind (streams w s)")
    case Base
    then show ?thesis
      by (simp add: listen.simps[of s h w] base_listen_def Let_def emit_def
          callEventListeners_def nextTick_def upd_stream_def)
  next
    case (Broadcast p)
    then show ?thesis using 1(1)[OF Broadcast]
      by (auto simp add: listen.simps[of s h w] bc_subscribe_def Let_def
          callEventListeners_def nextTick_def upd_stream_def split: prod.splits sum.splits)
  next
    case (Filtering p v)
    then show ?thesis using 1(2)[OF Filtering]
      by (auto simp add: listen.simps[of s h w] base_listen_def Let_def emit_def
          callEventListeners_def nextTick_def upd_stream_def split: prod.splits sum.splits)
  qed
qed

lemma bc_close_fields:
  assumes "parentSubscription (streams w b) = Some k0"
    and "owner (subs w k0) \<noteq> b"
  shows "subscribers (streams (bc_close b w) b) = subscribers (streams w b)"
    and "isClosed (streams (bc_close b w) b)"
    and "parentSubscription (streams (bc_close b w) b) = None"
    and "kind (streams (bc_close b w) b) = kind (streams w b)"
    and "queue (bc_close b w) = queue (sub_cancel k0 w) @ [TFanout b Done]"
proof -
  let ?w1 = "upd_stream b (\<lambda>st. st\<lparr>isClosed := True\<rparr>) w"
  have o: "owner (subs ?w1 k0) \<noteq> b" using assms(2) by simp
  have q: "queue (sub_cancel k0 ?w1) = queue (sub_cancel k0 w)"
    by (simp add: cancel_defs split: kind.splits)
  show "subscribers (streams (bc_close b w) b) = subscribers (streams w b)"
    and "isClosed (streams (bc_close b w) b)"
    and "parentSubscription (streams (bc_close b w) b) = None"
    and "kind (streams (bc_close b w) b) = kind (streams w b)"
    and "queue (bc_close b w) = queue (sub_cancel k0 w) @ [TFanout b Done]"
    using assms(1) sub_cancel_frame[OF o] q
    by (simp_all add: bc_close_def Let_def nextTick_def)
qed

text \<open>What \<open>bc_subscribe\<close> does when the subscription on the parent is owned by another
  stream and is not the one being created.\<close>

lemma bc_subscribe_result:
  assumes "parentSubscription (streams w b) = Some k0"
    and "owner (subs w k0) \<noteq> b"
    and "k0 \<noteq> next_sub w"
    and "next_sub w \<notin> set (subscribers (streams w b))"
    and "bc_subscribe b h w = (r, w1)"
  shows "r = Inr (next_sub w) \<and> subs w1 = (subs w)(next_sub w := new_subscription b h)
       \<and> subscribers (streams w1 b) = subscribers (streams w b) @ [next_sub w]
       \<and> kind (streams w1 b) = kind (streams w b)
       \<and> isClosed (streams w1 b) = isClosed (streams w b)
       \<and> (isClosed (streams w b) \<longrightarrow> parentSubscription (streams w1 b) = None
            \<and> (\<exists>q. queue w1 = q @ [TFanout b Done]))"
proof -
  define w3 where "w3 = callEventListeners b ''onListen''
      (upd_stream b (\<lambda>st. st\<lparr>subscribers := subscribers st @ [next_sub w]\<rparr>)
         (w\<lparr>subs := (subs w)(next_sub w := new_subscription b h), next_sub := Suc (next_sub w)\<rparr>))"
  have B: "bc_subscribe b h w = (Inr (next_sub w), if isClosed (streams w3 b) then bc_close b w3 else w3)"
    using assms(4) by (simp add: bc_subscribe_def Let_def w3_def upd_stream_def)
  have f3: "parentSubscription (streams w3 b) = Some k0" "owner (subs w3 k0) \<noteq> b"
    "subscribers (streams w3 b) = subscribers (streams w b) @ [next_sub w]"
    "kind (streams w3 b) = kind (streams w b)" "isClosed (streams w3 b) = isClosed (streams w b)"
    "subs w3 = (subs w)(next_sub w := new_subscription b h)"
    using assms(1-3) by (simp_all add: w3_def callEventListeners_def nextTick_def)
  show ?thesis
    using B assms(5) f3 bc_close_fields[OF f3(1,2)] by auto
qed

lemma listen_broadcast:
  assumes "wf_world w"
    and "kind (streams w b) = Broadcast p"
    and "subs_allocated w b"
    and "listen b h w = (Inr k, w1)"
  shows "subs w1 k = new_subscription b h
       \<and> subscribers (streams w1 b) = subscribers (streams w b) @ [k]
       \<and> kind (streams w1 b) = Broadcast p
       \<and> isClosed (streams w1 b) = isClosed (streams w b)
       \<and> (isClosed (streams w b) \<longrightarrow> parentSubscription (streams w1 b) = None
            \<and> (\<exists>q. queue w1 = q @ [TFanout b Done]))"
proof -
  have pl: "p < b" using wf_parent_less(2)[OF assms(1,2)] .
  have al: "list_all (\<lambda>k. k < next_sub w) (subscribers (streams w b))"
    using assms(3) by (simp add: subs_allocated_def)
  show ?thesis
  proof (cases "parentSubscription (streams w b)")
    case None
    obtain r wp where L: "listen p (Wire b) w = (r, wp)" by (cases "listen p (Wire b) w")
    obtain k0 where r: "r = Inr k0"
      using assms(2,4) None pl L by (cases r) (simp_all add: listen.simps[of b h w])
    have ns: "next_sub wp = Suc k0" using listen_next_sub[of p "Wire b" w k0] L r by simp
    have mono: "next_sub w \<le> next_sub wp" using listen_next_sub_mono[of w p "Wire b"] L by simp
    have ow: "owner (subs wp k0) = p" using listen_owner[of p "Wire b" w k0] L r by simp
    have fr: "streams wp b = streams w b" using listen_frame[OF assms(1) pl, of "Wire b"] L by simp
    define w' where "w' = upd_stream b (\<lambda>st. st\<lparr>parentSubscription := Some k0\<rparr>) wp"
    have B: "bc_subscribe b h w' = (Inr k, w1)"
      using assms(2,4) None pl L r by (simp add: listen.simps[of b h w] w'_def)
    have f: "next_sub w \<notin> set (subscribers (streams w b))" using al by (auto simp add: list_all_iff)
    have "next_sub w' \<notin> set (subscribers (streams w' b))"
      using al mono by (auto simp add: w'_def fr list_all_iff upd_stream_def)
    from bc_subscribe_result[OF _ _ _ this B, of k0]
    show ?thesis using ow pl ns fr assms(2) by (simp add: w'_def upd_stream_def)
  next
    case (Some k0)
    have B: "bc_subscribe b h w = (Inr k, w1)"
      using assms(2,4) Some by (simp add: listen.simps[of b h w])
    have ow: "owner (subs w k0) = p" using wf_parent_owner[OF assms(1,2) Some] .
    have k0: "k0 \<noteq> next_sub w" using assms(3) Some by (simp add: subs_allocated_def)
    have f: "next_sub w \<notin> set (subscribers (streams w b))" using al by (auto simp add: list_all_iff)
    from bc_subscribe_result[OF Some _ k0 f B]
    show ?thesis using ow pl assms(2) by simp
  qed
qed

lemma listen_attaches:
  assumes "wf_world w"
    and "subs_allocated w s"
    and "listen s h w = (Inr k, w1)"
  shows "subs w1 k = new_subscription s h \<and> attached w1 s k"
proof (cases "kind (streams w s)")
  case Base
  then have "base_listen s h w = (Inr k, w1)" using assms(3) by (simp add: listen.simps[of s h w])
  from base_listen_result[OF this] show ?thesis using Base by (simp add: attached_def)
next
  case (Broadcast p)
  from listen_broadcast[OF assms(1) Broadcast assms(2,3)] show ?thesis
    by (simp add: attached_def)
next
  case (Filtering p v)
  have pl: "p < s" using wf_parent_less(1)[OF assms(1) Filtering] .
  show ?thesis
  proof (cases "fsub (streams w s)")
    case None
    obtain r wp where L: "listen p (Wire s) w = (r, wp)" by (cases "listen p (Wire s) w")
    obtain k0 where r: "r = Inr k0"
      using assms(3) Filtering None pl L by (cases r) (simp_all add: listen.simps[of s h w])
    have fr: "streams wp s = streams w s" using listen_frame[OF assms(1) pl, of "Wire s"] L by simp
    have "base_listen s h (upd_stream s (\<lambda>st. st\<lparr>fsub := Some k0\<rparr>) wp) = (Inr k, w1)"
      using assms(3) Filtering None pl L r by (simp add: listen.simps[of s h w])
    from base_listen_result[OF this] show ?thesis using Filtering fr by (simp add: attached_def)
  next
    case (Some a)
    then have "base_listen s h w = (Inr k, w1)"
      using assms(3) Filtering by (simp add: listen.simps[of s h w])
    from base_listen_result[OF this] show ?thesis using Filtering by (simp add: attached_def)
  qed
qed


lemma wf_world_aggs [simp]:
  "wf_world (w\<lparr>aggs := a\<rparr>) = wf_world w"
  "wf_world (w\<lparr>next_agg := n\<rparr>) = wf_world w"
  by (simp_all add: wf_world_def cong: kind.case_cong option.case_cong)

lemma subs_allocated_aggs [simp]:
  "subs_allocated (w\<lparr>aggs := a\<rparr>) = subs_allocated w"
  "subs_allocated (w\<lparr>next_agg := n\<rparr>) = subs_allocated w"
  by (simp_all add: subs_allocated_def fun_eq_iff cong: option.case_cong)

lemma attached_settle [simp]: "attached (settle p v w) = attached w"
  by (simp add: attached_def fun_eq_iff cong: kind.case_cong)

lemma not_attached_sub_cancel: "\<not> attached (sub_cancel k w) (owner (subs w k)) k"
  by (simp add: attached_def cancel_defs split: kind.splits)

text \<open>One message handed to the subscription of \<^verbatim>\<open>every\<close>.\<close>

lemma messageHandler_every:
  assumes "every_sub w k p c"
  shows "messageHandler k m w = (None, case every_result c [m] of
            None \<Rightarrow> w
          | Some v \<Rightarrow> settle p v (if every_cancels c m then sub_cancel k w else w))"
proof (cases m)
  case (Data d)
  then show ?thesis using assms
    by (cases "c d")
       (auto simp add: every_sub_def messageHandler_def sub_emit_def upd_sub_def deliver_def
          Let_def upd_agg_def settle_def cancel_defs cancelAndFulfill_def log_event_def
          split: kind.splits bool.splits)
next
  case (Error e)
  then show ?thesis using assms
    by (auto simp add: every_sub_def messageHandler_def sub_emit_def upd_sub_def deliver_def
          Let_def upd_agg_def settle_def cancel_defs cancelAndFulfill_def log_event_def
          split: kind.splits)
next
  case Done
  then show ?thesis using assms
    by (auto simp add: every_sub_def messageHandler_def sub_emit_def upd_sub_def deliver_def
          Let_def upd_agg_def settle_def cancel_defs cancelAndFulfill_def log_event_def
          split: kind.splits)
qed

lemma every_sub_settle [simp]: "every_sub (settle p' v w) = every_sub w"
  by (simp add: every_sub_def fun_eq_iff)

lemma every_sub_sub_cancel [simp]: "every_sub (sub_cancel k' w) = every_sub w"
  by (simp add: every_sub_def fun_eq_iff)

lemma every_callback:
  assumes "every_sub w k p c"
  shows "fst (messageHandler k m w) = None
       \<and> every_sub (snd (messageHandler k m w)) k p c
       \<and> outcome_of (aggs (snd (messageHandler k m w)) p)
           = (case outcome_of (aggs w p) of None \<Rightarrow> every_result c [m] | Some u \<Rightarrow> Some u)
       \<and> trace (snd (messageHandler k m w))
           = trace w @ (if every_cancels c m then [Cancelled (owner (subs w k)) k] else [])
               @ (if outcome_of (aggs w p) = None
                  then (case every_result c [m] of None \<Rightarrow> [] | Some v \<Rightarrow> [Settled p v])
                  else [])
       \<and> (if every_cancels c m then \<not> attached (snd (messageHandler k m w)) (owner (subs w k)) k
          else streams (snd (messageHandler k m w)) = streams w)"
proof (cases "every_result c [m]")
  case None
  then have "\<not> every_cancels c m"
    by (cases m) (auto split: outcome.splits bool.splits)
  then show ?thesis using assms None
    by (simp add: messageHandler_every[OF assms] split: option.splits)
next
  case (Some v)
  show ?thesis using assms Some
    by (simp add: messageHandler_every[OF assms] outcome_settle trace_settle
        not_attached_sub_cancel split: option.splits)
qed

lemma every_created:
  assumes "wf_world w"
    and "subs_allocated w s"
    and "every s c w = (p, w1)"
  shows "p = next_agg w
       \<and> ((\<exists>k. owner (subs w1 k) = s \<and> every_sub w1 k p c \<and> attached w1 s k
                \<and> outcome_of (aggs w1 p) = None)
          \<or> outcome_of (aggs w1 p) = Some (Rejected (VErr ErrorForListen)))"
proof -
  define st where "st = new_agg_state\<lparr>acc := (VUndef :: 'a jsval), seenFirst := False\<rparr>"
  define wa where "wa = w\<lparr>aggs := (aggs w)(next_agg w := st), next_agg := Suc (next_agg w)\<rparr>"
  have wfa: "wf_world wa" "subs_allocated wa s" using assms(1,2) by (simp_all add: wa_def)
  obtain r w2 where L: "listen s (Agg (next_agg w) (Every c)) wa = (r, w2)"
    by (cases "listen s (Agg (next_agg w) (Every c)) wa")
  have ag: "aggs w2 = aggs wa" using listen_aggs[of s "Agg (next_agg w) (Every c)" wa] L by simp
  have pend: "outcome_of (aggs w2 (next_agg w)) = None"
    by (simp add: ag wa_def st_def new_agg_state_def)
  show ?thesis
  proof (cases r)
    case (Inl e)
    have e: "e = ErrorForListen"
      using listen_error[OF wfa(1), of s "Agg (next_agg w) (Every c)" e] L Inl by simp
    have "every s c w = (next_agg w, settle (next_agg w) (Rejected (VErr e)) w2)"
      using L Inl by (simp add: every_def aggregate_def Let_def wa_def st_def)
    then show ?thesis using assms(3) pend e by (auto simp add: outcome_settle)
  next
    case (Inr k)
    have ev: "every s c w = (next_agg w, w2)"
      using L Inr by (simp add: every_def aggregate_def Let_def wa_def st_def)
    from listen_attaches[OF wfa] L Inr
    have "subs w2 k = new_subscription s (Agg (next_agg w) (Every c))" "attached w2 s k" by simp_all
    then have "owner (subs w2 k) = s \<and> every_sub w2 k (next_agg w) c \<and> attached w2 s k"
      by (simp add: every_sub_def new_subscription_def)
    then show ?thesis using assms(3) ev pend by auto
  qed
qed


text \<open>
  Claim C6 (amended). \<^verbatim>\<open>every(c)\<close> on any stream \<open>s\<close> (base, derived or broadcast) of a
  well-formed store returns the promise \<open>p\<close>.
  \<^item> Either \<^verbatim>\<open>listen\<close> threw and the promise is rejected with that exception, or the promise
    is pending and \<open>s\<close> delivers to a new subscription \<open>k\<close> that holds the callbacks of
    \<^verbatim>\<open>every\<close>.
  \<^item> Whenever a message \<open>m\<close> is handed to that subscription, in whatever store \<open>W\<close> there is
    by then: the callback does not throw; a pending promise settles as
    \<open>every_result c [m]\<close> says and a settled one stays as it is. So a value that satisfies
    the condition changes nothing; a value on which the condition is false or throws
    cancels the subscription and then rejects the promise with \<open>false\<close>; an error
    cancels the subscription and then rejects the promise with that error; Done resolves
    the promise with \<open>true\<close>. After a cancel the stream no longer delivers to \<open>k\<close>.
  \<^item> On a base stream without listener whose buffer holds the messages \<open>ms\<close>, with no task
    pending: after the two deferred tasks (the \<^verbatim>\<open>onListen\<close> hook and the flush) the promise
    is settled as \<open>every_result c ms\<close> says, the first deciding message, and the events
    are those of \<open>every_events\<close>.
\<close>

theorem every_settles:
  assumes "wf_world w"
    and "subs_allocated w s"
    and "every s c w = (p, w1)"
  shows "p = next_agg w
       \<and> ((\<exists>k. owner (subs w1 k) = s \<and> every_sub w1 k p c \<and> attached w1 s k
                \<and> outcome_of (aggs w1 p) = None)
          \<or> outcome_of (aggs w1 p) = Some (Rejected (VErr ErrorForListen)))
       \<and> (every_sub W k p c \<longrightarrow>
            fst (messageHandler k m W) = None
          \<and> every_sub (snd (messageHandler k m W)) k p c
          \<and> outcome_of (aggs (snd (messageHandler k m W)) p)
              = (case outcome_of (aggs W p) of None \<Rightarrow> every_result c [m] | Some u \<Rightarrow> Some u)
          \<and> trace (snd (messageHandler k m W))
              = trace W @ (if every_cancels c m then [Cancelled (owner (subs W k)) k] else [])
                  @ (if outcome_of (aggs W p) = None
                     then (case every_result c [m] of None \<Rightarrow> [] | Some v \<Rightarrow> [Settled p v])
                     else [])
          \<and> (if every_cancels c m
              then \<not> attached (snd (messageHandler k m W)) (owner (subs W k)) k
              else streams (snd (messageHandler k m W)) = streams W))
       \<and> (kind (streams w s) = Base \<and> subscription (streams w s) = None
            \<and> \<not> isPaused (streams w s) \<and> queue w = [] \<longrightarrow>
            fst (ticks 2 w1) = None
          \<and> outcome_of (aggs (snd (ticks 2 w1)) p) = every_result c (buffer (streams w s))
          \<and> trace (snd (ticks 2 w1)) = trace w @ hook_events w s ''onListen''
              @ every_events s (next_sub w) p c (isClosed (streams w s)) True
                  (buffer (streams w s)))"
proof -
  have d: "kind (streams w s) = Base \<and> subscription (streams w s) = None
            \<and> \<not> isPaused (streams w s) \<and> queue w = [] \<longrightarrow>
            fst (ticks 2 w1) = None
          \<and> outcome_of (aggs (snd (ticks 2 w1)) p) = every_result c (buffer (streams w s))
          \<and> trace (snd (ticks 2 w1)) = trace w @ hook_events w s ''onListen''
              @ every_events s (next_sub w) p c (isClosed (streams w s)) True
                  (buffer (streams w s))"
    using every_buffered[OF _ _ _ _ assms(3), of "fst (ticks 2 w1)" "snd (ticks 2 w1)"]
    by simp
  show ?thesis
    using every_created[OF assms] every_callback[of W k p c m] d by blast
qed

lemma ex_closed_stream_facts:
  "kind (streams ex_closed_stream 0) = Base"
  "subscription (streams ex_closed_stream 0) = None"
  "\<not> isPaused (streams ex_closed_stream 0)"
  "queue ex_closed_stream = []"
  "buffer (streams ex_closed_stream 0) = [Data 1, Data 2, Done]"
  "isClosed (streams ex_closed_stream 0)"
  "trace ex_closed_stream = []"
  "next_sub ex_closed_stream = 0"
  by (simp_all add: ex_closed_stream_def world_defs add_def base_add_def close_def
      base_close_def createDoneMessage_def)

lemma ex_closed_stream_wf:
  "wf_world ex_closed_stream" "subs_allocated ex_closed_stream 0"
  by (simp_all add: wf_world_def subs_allocated_def ex_closed_stream_def world_defs add_def
      base_add_def close_def base_close_def)

lemma ex_every_start:
  "every_sub (snd (every 0 even_condition ex_closed_stream)) 0 0 even_condition"
  "outcome_of (aggs (snd (every 0 even_condition ex_closed_stream)) 0) = None"
  "trace (snd (every 0 even_condition ex_closed_stream)) = []"
  "owner (subs (snd (every 0 even_condition ex_closed_stream)) 0) = 0"
  "fst (every 0 even_condition ex_closed_stream) = 0"
  "hook_events ex_closed_stream 0 ''onListen'' = []"
  by (simp_all add: every_sub_def every_def aggregate_def listen.simps hook_events_def
      ex_closed_stream_def world_defs new_agg_state_def add_def base_add_def close_def
      base_close_def)

theorem every_settles_witness:
  "wf_world ex_closed_stream \<and> subs_allocated ex_closed_stream 0
   \<and> fst (every 0 even_condition ex_closed_stream) = 0
   \<and> every_sub (snd (every 0 even_condition ex_closed_stream)) 0 0 even_condition
   \<and> outcome_of (aggs (snd (messageHandler 0 (Data 1)
         (snd (every 0 even_condition ex_closed_stream)))) 0) = Some (Rejected (VBool False))
   \<and> trace (snd (messageHandler 0 (Data 1) (snd (every 0 even_condition ex_closed_stream))))
       = [Cancelled 0 0, Settled 0 (Rejected (VBool False))]
   \<and> \<not> attached (snd (messageHandler 0 (Data 1)
         (snd (every 0 even_condition ex_closed_stream)))) 0 0
   \<and> kind (streams ex_closed_stream 0) = Base
   \<and> subscription (streams ex_closed_stream 0) = None
   \<and> \<not> isPaused (streams ex_closed_stream 0)
   \<and> queue ex_closed_stream = []
   \<and> fst (ticks 2 (snd (every 0 even_condition ex_closed_stream))) = None
   \<and> outcome_of (aggs ex_every_final 0) = Some (Rejected (VBool False))
   \<and> trace ex_every_final = [Cancelled 0 0, Settled 0 (Rejected (VBool False))]"
proof -
  have ev: "every 0 even_condition ex_closed_stream
      = (0, snd (every 0 even_condition ex_closed_stream))"
    using ex_every_start(5) by (simp add: prod_eq_iff)
  show ?thesis
    using every_settles[OF ex_closed_stream_wf ev,
        where W = "snd (every 0 even_condition ex_closed_stream)" and k = 0 and m = "Data 1"]
      ex_closed_stream_wf ex_every_start ex_closed_stream_facts
    by (simp add: ex_every_final_def even_condition_def)
qed


text \<open>Claim C6 as stated fails: the condition is false on the value 1, and the promise
  is rejected with \<open>false\<close>, not resolved with it.\<close>

theorem every_false_counterexample:
  "outcome_of (aggs ex_every_final 0) = Some (Rejected (VBool False))
   \<and> outcome_of (aggs ex_every_final 0) \<noteq> Some (Resolved (VBool False))"
  by (simp add: ex_every_final_def) code_simp

lemma ex_toArray_start_facts:
  "handler (subs ex_toArray_start 0) = Agg 0 ToArray"
  "outcome_of (aggs ex_toArray_start 0) = None"
  "owner (subs ex_toArray_start 0) = 0"
  "trace ex_toArray_start = []"
  by (simp_all add: ex_toArray_start_def toArray_def aggregate_def listen.simps
      ex_closed_stream_def world_defs new_agg_state_def
      add_def base_add_def close_def base_close_def)

theorem aggregator_cancel_order_witness:
  "handler (subs ex_toArray_start 0) = Agg 0 ToArray
   \<and> outcome_of (aggs ex_toArray_start 0) = None
   \<and> (\<exists>evs. trace (snd (deliver 0 (Data 5) ex_toArray_start)) = trace ex_toArray_start @ evs
          \<and> cancels_first (owner (subs ex_toArray_start 0)) 0 0 evs)
   \<and> (\<exists>evs. trace (snd (deliver 0 (Error (ErrorObj ''uhoh'')) ex_toArray_start))
              = trace ex_toArray_start @ evs
          \<and> cancels_first (owner (subs ex_toArray_start 0)) 0 0 evs)
   \<and> (\<exists>evs. trace (snd (deliver 0 Done ex_toArray_start)) = trace ex_toArray_start @ evs
          \<and> done_events ToArray (owner (subs ex_toArray_start 0)) 0 0 evs)"
  using aggregator_cancel_order[OF ex_toArray_start_facts(1,2), of 5 "ErrorObj ''uhoh''"]
    ex_toArray_start_facts(1,2)
  by blast

text \<open>Claim C5 as stated fails: \<^verbatim>\<open>toArray()\<close> on the closed stream settles its promise
  when Done is delivered, and the subscription is cancelled only afterwards, by the
  stream, at the end of the flush.\<close>

theorem toArray_settles_before_cancel_counterexample:
  "trace ex_toArray_final = [Settled 0 (Resolved (VArray [1, 2])), Cancelled 0 0]"
  by (simp add: ex_toArray_final_def ex_toArray_start_def) code_simp

section \<open>Buffered values reach the first listener in order\<close>



lemma flush_step_recorder_done:
  assumes "rec_attached w s k l opts"
  shows "flush_step s Done w = (None, if has_onDone opts then log_event (Received l Done) w else w)"
  using assms
  by (simp add: flush_step_def rec_attached_def messageHandler_def sub_emit_def upd_sub_def
      deliver_def log_event_def)

lemma rec_attached_log [simp]:
  "rec_attached (log_event ev w) s k l opts = rec_attached w s k l opts"
  by (simp add: rec_attached_def log_event_def)











section \<open>Closed streams and the shape of buffers\<close>

lemma only_done_snoc: "only_done (b @ [Done]) = only_done b"
  by (induction b rule: only_done.induct) simp_all

lemma dones_last_snoc_done: "dones_last b \<Longrightarrow> dones_last (b @ [Done])"
  by (induction b rule: dones_last.induct) (simp_all add: only_done_snoc)

lemma has_done_snoc_done: "has_done (b @ [Done])"
  by (induction b rule: has_done.induct) simp_all

lemma dones_last_snoc_other:
  "\<not> has_done b \<Longrightarrow> m \<noteq> Done \<Longrightarrow> dones_last (b @ [m]) \<and> \<not> has_done (b @ [m])"
  by (induction b rule: has_done.induct) (cases m; simp)+

lemma createErrorMessage_not_Done: "createErrorMessage m \<noteq> Done"
  by (cases m) simp_all

lemma stream_inv_upd:
  assumes "stream_inv w0 w"
    and "buffer_ok (streams w s) \<Longrightarrow> buffer_ok (f (streams w s))"
    and "kind (f (streams w s)) = kind (streams w s)"
    and "isClosed (streams w s) \<Longrightarrow> isClosed (f (streams w s))"
  shows "stream_inv w0 (upd_stream s f w)"
  using assms
  by (auto simp add: stream_inv_def buffers_ok_def closed_kept_def upd_stream_def)

lemma stream_inv_upd_other:
  assumes "buffer (f (streams w s)) = buffer (streams w s)"
    and "isClosed (f (streams w s)) = isClosed (streams w s)"
    and "kind (f (streams w s)) = kind (streams w s)"
  shows "stream_inv w0 (upd_stream s f w) = stream_inv w0 w"
  using assms
  by (auto simp add: stream_inv_def buffers_ok_def closed_kept_def upd_stream_def buffer_ok_def)

lemma stream_inv_frame:
  assumes "stream_inv w0 w" "streams w' = streams w" "next_stream w' = next_stream w"
  shows "stream_inv w0 w'"
  using assms by (simp add: stream_inv_def buffers_ok_def closed_kept_def)

lemma stream_inv_field_upd [simp]:
  "stream_inv w0 (w\<lparr>subs := a\<rparr>) = stream_inv w0 w"
  "stream_inv w0 (w\<lparr>next_sub := b\<rparr>) = stream_inv w0 w"
  "stream_inv w0 (w\<lparr>aggs := c\<rparr>) = stream_inv w0 w"
  "stream_inv w0 (w\<lparr>next_agg := d\<rparr>) = stream_inv w0 w"
  "stream_inv w0 (w\<lparr>queue := e\<rparr>) = stream_inv w0 w"
  "stream_inv w0 (w\<lparr>trace := f\<rparr>) = stream_inv w0 w"
  by (simp_all add: stream_inv_def buffers_ok_def closed_kept_def)

lemma stream_inv_nextTick [simp]: "stream_inv w0 (nextTick t w) = stream_inv w0 w"
  by (simp add: stream_inv_def buffers_ok_def closed_kept_def nextTick_def)

lemma stream_inv_log [simp]: "stream_inv w0 (log_event e w) = stream_inv w0 w"
  by (simp add: stream_inv_def buffers_ok_def closed_kept_def log_event_def)

lemma stream_inv_upd_sub [simp]: "stream_inv w0 (upd_sub k f w) = stream_inv w0 w"
  by (simp add: stream_inv_def buffers_ok_def closed_kept_def upd_sub_def)

lemma stream_inv_upd_agg [simp]: "stream_inv w0 (upd_agg k f w) = stream_inv w0 w"
  by (simp add: stream_inv_def buffers_ok_def closed_kept_def upd_agg_def)

lemma stream_inv_callEventListeners [simp]:
  "stream_inv w0 (callEventListeners s n w) = stream_inv w0 w"
  by (simp add: callEventListeners_def)

lemma stream_inv_emit [simp]: "stream_inv w0 (emit s w) = stream_inv w0 w"
  by (simp add: emit_def)

lemma stream_inv_base_cancel: "stream_inv w0 w \<Longrightarrow> stream_inv w0 (base_cancel s k w)"
  by (simp add: base_cancel_def stream_inv_upd_other)

lemma stream_inv_bc_cancel: "stream_inv w0 w \<Longrightarrow> stream_inv w0 (bc_cancel s k w)"
  by (simp add: bc_cancel_def stream_inv_upd_other)

lemma stream_inv_sub_cancel: "stream_inv w0 w \<Longrightarrow> stream_inv w0 (sub_cancel k w)"
  by (simp add: sub_cancel_def stream_cancel_def stream_inv_base_cancel stream_inv_bc_cancel
      split: kind.splits)

lemma buffer_ok_streams: "stream_inv w0 w \<Longrightarrow> buffer_ok (streams w s)"
  by (simp add: stream_inv_def buffers_ok_def)

lemma stream_inv_base_add: "stream_inv w0 w \<Longrightarrow> stream_inv w0 (snd (base_add s d w))"
  using buffer_ok_streams[of w0 w s]
  by (auto simp add: base_add_def buffer_ok_def dones_last_snoc_other intro!: stream_inv_upd)

lemma stream_inv_base_addError: "stream_inv w0 w \<Longrightarrow> stream_inv w0 (snd (base_addError s m w))"
  using buffer_ok_streams[of w0 w s]
  by (auto simp add: base_addError_def buffer_ok_def dones_last_snoc_other
      createErrorMessage_not_Done intro!: stream_inv_upd)

lemma stream_inv_base_close: "stream_inv w0 w \<Longrightarrow> stream_inv w0 (base_close s w)"
  by (auto simp add: base_close_def buffer_ok_def createDoneMessage_def dones_last_snoc_done
      intro!: stream_inv_upd)

lemma stream_inv_base_pause: "stream_inv w0 w \<Longrightarrow> stream_inv w0 (base_pause s w)"
  by (simp add: base_pause_def stream_inv_upd_other)

lemma stream_inv_base_resume: "stream_inv w0 w \<Longrightarrow> stream_inv w0 (base_resume s w)"
  by (simp add: base_resume_def stream_inv_upd_other)

lemma stream_inv_bc_add: "stream_inv w0 w \<Longrightarrow> stream_inv w0 (snd (bc_add s d w))"
  by (simp add: bc_add_def)

lemma stream_inv_bc_addError: "stream_inv w0 w \<Longrightarrow> stream_inv w0 (snd (bc_addError s d w))"
  by (simp add: bc_addError_def)

lemma stream_inv_bc_close: "stream_inv w0 w \<Longrightarrow> stream_inv w0 (bc_close s w)"
  by (auto simp add: bc_close_def Let_def buffer_ok_def
      intro!: stream_inv_upd stream_inv_sub_cancel split: option.splits)

lemma stream_inv_filtering_close: "stream_inv w0 w \<Longrightarrow> stream_inv w0 (filtering_close s w)"
  by (auto simp add: filtering_close_def Let_def buffer_ok_def
      intro!: stream_inv_upd stream_inv_sub_cancel stream_inv_base_close split: option.splits)


lemma and_then_preserves:
  assumes "P (snd r)" "\<And>w. P w \<Longrightarrow> P (snd (g w))"
  shows "P (snd (and_then r g))"
  using assms by (cases r) (auto simp add: and_then_def split: option.splits)

lemma for_each_preserves:
  assumes "\<And>x w. P w \<Longrightarrow> P (snd (f x w))" "P w"
  shows "P (snd (for_each f xs w))"
  using assms(2)
proof (induction xs arbitrary: w)
  case Nil
  then show ?case by simp
next
  case (Cons x xs)
  show ?case
  proof (cases "f x w")
    case (Pair e w1)
    have "P w1" using assms(1)[OF Cons.prems, of x] Pair by simp
    then show ?thesis using Cons.IH[of w1] Pair by (cases e) simp_all
  qed
qed

lemma stream_inv_map_add: "stream_inv w0 w \<Longrightarrow> stream_inv w0 (snd (map_add s f d w))"
  by (simp add: map_add_def stream_inv_base_add split: outcome.splits)

lemma stream_inv_take_add: "stream_inv w0 w \<Longrightarrow> stream_inv w0 (snd (take_add s n d w))"
  unfolding take_add_def
  apply (rule and_then_preserves[where P="stream_inv w0"])
   apply (simp add: stream_inv_base_add)
   apply (rule impI)
   apply (rule and_then_preserves[where P="stream_inv w0"])
    apply (simp_all add: stream_inv_base_add stream_inv_upd_other stream_inv_filtering_close)
  done

lemma stream_inv_takeWhile_add:
  "stream_inv w0 w \<Longrightarrow> stream_inv w0 (snd (takeWhile_add s c d w))"
  using stream_inv_base_add[of w0 w s d]
  by (auto simp add: takeWhile_add_def stream_inv_filtering_close
      split: outcome.splits bool.splits prod.splits option.splits)

lemma stream_inv_skip_add: "stream_inv w0 w \<Longrightarrow> stream_inv w0 (snd (skip_add s n d w))"
  by (simp add: skip_add_def stream_inv_base_add stream_inv_upd_other)

lemma stream_inv_skipWhile_add:
  "stream_inv w0 w \<Longrightarrow> stream_inv w0 (snd (skipWhile_add s c d w))"
  by (auto simp add: skipWhile_add_def Let_def stream_inv_upd_other
      intro!: stream_inv_base_add split: outcome.splits bool.splits)

lemma stream_inv_where_add: "stream_inv w0 w \<Longrightarrow> stream_inv w0 (snd (where_add s c d w))"
  by (simp add: where_add_def stream_inv_base_add split: outcome.splits bool.splits)

lemma stream_inv_add: "stream_inv w0 w \<Longrightarrow> stream_inv w0 (snd (add s d w))"
  by (simp add: add_def stream_inv_base_add stream_inv_bc_add stream_inv_map_add
      stream_inv_take_add stream_inv_takeWhile_add stream_inv_skip_add
      stream_inv_skipWhile_add stream_inv_where_add split: kind.splits variant.splits)

lemma stream_inv_addError: "stream_inv w0 w \<Longrightarrow> stream_inv w0 (snd (addError s m w))"
  by (simp add: addError_def stream_inv_base_addError stream_inv_bc_addError split: kind.splits)

lemma stream_inv_close: "stream_inv w0 w \<Longrightarrow> stream_inv w0 (close s w)"
  by (simp add: close_def stream_inv_base_close stream_inv_bc_close stream_inv_filtering_close
      split: kind.splits)

lemma stream_inv_stream_pause: "stream_inv w0 w \<Longrightarrow> stream_inv w0 (stream_pause s w)"
  by (simp add: stream_pause_def stream_inv_base_pause split: kind.splits)

lemma stream_inv_stream_resume: "stream_inv w0 w \<Longrightarrow> stream_inv w0 (stream_resume s w)"
  by (simp add: stream_resume_def stream_inv_base_resume split: kind.splits)

lemma stream_inv_settle [simp]: "stream_inv w0 (settle p v w) = stream_inv w0 w"
  by (simp add: settle_def)

lemma stream_inv_run_action: "stream_inv w0 w \<Longrightarrow> stream_inv w0 (run_action k p a w)"
  by (cases a) (simp_all add: stream_inv_sub_cancel)

lemma stream_inv_run_actions: "stream_inv w0 w \<Longrightarrow> stream_inv w0 (run_actions k p acts w)"
  unfolding run_actions_def
  by (induction acts arbitrary: w) (simp_all add: stream_inv_run_action)

lemma stream_inv_deliver: "stream_inv w0 w \<Longrightarrow> stream_inv w0 (snd (deliver k m w))"
  by (auto simp add: deliver_def Let_def stream_inv_add stream_inv_addError stream_inv_close
      stream_inv_sub_cancel stream_inv_run_actions split: handler.splits message.splits)

lemma stream_inv_sub_emit: "stream_inv w0 w \<Longrightarrow> stream_inv w0 (snd (sub_emit k w))"
  unfolding sub_emit_def
  apply (simp, rule impI)
  apply (rule and_then_preserves[where P="stream_inv w0"])
   apply (rule for_each_preserves[where P="stream_inv w0"])
    apply (simp_all add: stream_inv_deliver)
  done

lemma stream_inv_messageHandler:
  "stream_inv w0 w \<Longrightarrow> stream_inv w0 (snd (messageHandler k m w))"
  by (simp add: messageHandler_def stream_inv_sub_emit)

lemma stream_inv_sub_pause: "stream_inv w0 w \<Longrightarrow> stream_inv w0 (sub_pause k w)"
  by (auto simp add: sub_pause_def pause_callback_def intro!: stream_inv_stream_pause
      split: handler.splits)

lemma stream_inv_sub_resume: "stream_inv w0 w \<Longrightarrow> stream_inv w0 (snd (sub_resume k w))"
  by (auto simp add: sub_resume_def resume_callback_def
      intro!: stream_inv_sub_emit stream_inv_stream_resume split: handler.splits)

lemma stream_inv_flush_step: "stream_inv w0 w \<Longrightarrow> stream_inv w0 (snd (flush_step s m w))"
  by (simp add: flush_step_def stream_inv_messageHandler split: option.splits)

lemma stream_inv_fanout_step: "stream_inv w0 w \<Longrightarrow> stream_inv w0 (snd (fanout_step s m k w))"
  by (simp add: fanout_step_def stream_inv_messageHandler)

lemma stream_inv_flush_finish: "stream_inv w0 w \<Longrightarrow> stream_inv w0 (snd (flush_finish s w))"
  by (auto simp add: flush_finish_def Let_def buffer_ok_def
      intro!: stream_inv_base_cancel stream_inv_upd split: option.splits)

lemma stream_inv_hooks:
  "stream_inv w0 w \<Longrightarrow> stream_inv w0 (foldl (\<lambda>w' c. log_event (Hook s name c) w') w cs)"
  by (induction cs arbitrary: w) simp_all

lemma stream_inv_run_task: "stream_inv w0 w \<Longrightarrow> stream_inv w0 (snd (run_task t w))"
proof (cases t)
  case (TFlush s)
  assume "stream_inv w0 w"
  then show ?thesis unfolding TFlush run_task.simps
    apply -
    apply (rule and_then_preserves[where P="stream_inv w0"])
     apply (rule for_each_preserves[where P="stream_inv w0"])
      apply (simp_all add: stream_inv_flush_step stream_inv_flush_finish)
    done
next
  case (TEvent s name)
  assume "stream_inv w0 w"
  then show ?thesis unfolding TEvent by (simp add: stream_inv_hooks)
next
  case (TFanout s m)
  assume "stream_inv w0 w"
  then show ?thesis unfolding TFanout run_task.simps
    apply -
    apply (rule for_each_preserves[where P="stream_inv w0"])
     apply (simp_all add: stream_inv_fanout_step)
    done
qed

lemma stream_inv_tick: "stream_inv w0 w \<Longrightarrow> stream_inv w0 (snd (tick w))"
  by (auto simp add: tick_def intro!: stream_inv_run_task split: list.splits)



lemma stream_inv_base_listen: "stream_inv w0 w \<Longrightarrow> stream_inv w0 (snd (base_listen s h w))"
  by (simp add: base_listen_def Let_def stream_inv_upd_other)

lemma stream_inv_bc_subscribe: "stream_inv w0 w \<Longrightarrow> stream_inv w0 (snd (bc_subscribe s h w))"
  by (auto simp add: bc_subscribe_def Let_def stream_inv_upd_other
      intro!: stream_inv_bc_close)

lemma stream_inv_listen: "stream_inv w0 w \<Longrightarrow> stream_inv w0 (snd (listen s h w))"
proof (induction s h w rule: listen.induct)
  case (1 s h w)
  show ?case
  proof (cases "kind (streams w s)")
    case Base
    then show ?thesis using 1(3) by (simp add: listen.simps[of s h w] stream_inv_base_listen)
  next
    case (Broadcast p)
    then show ?thesis using 1(1)[OF Broadcast _ _ 1(3)] 1(3)
      by (auto simp add: listen.simps[of s h w] stream_inv_upd_other
          intro!: stream_inv_bc_subscribe split: prod.splits sum.splits)
  next
    case (Filtering p v)
    then show ?thesis using 1(2)[OF Filtering _ _ 1(3)] 1(3)
      by (auto simp add: listen.simps[of s h w] stream_inv_upd_other
          intro!: stream_inv_base_listen split: prod.splits sum.splits)
  qed
qed

lemma stream_inv_new_stream: "stream_inv w0 w \<Longrightarrow> stream_inv w0 (snd (new_stream k w))"
  by (auto simp add: new_stream_def stream_inv_def buffers_ok_def closed_kept_def
      buffer_ok_def new_stream_obj_def)

lemma stream_inv_aggregate: "stream_inv w0 w \<Longrightarrow> stream_inv w0 (snd (aggregate s a i w))"
proof -
  assume a: "stream_inv w0 w"
  define w1 where "w1 = w\<lparr>aggs := (aggs w)(next_agg w := new_agg_state\<lparr>acc := i,
      seenFirst := (case i of VUndef \<Rightarrow> False | _ \<Rightarrow> True)\<rparr>), next_agg := Suc (next_agg w)\<rparr>"
  have "stream_inv w0 w1" using a by (simp add: w1_def)
  then have "stream_inv w0 (snd (listen s (Agg (next_agg w) a) w1))" by (rule stream_inv_listen)
  then show ?thesis
    unfolding aggregate_def Let_def w1_def[symmetric]
    by (cases "listen s (Agg (next_agg w) a) w1") (auto split: sum.splits)
qed

lemma stream_inv_step: "stream_inv w0 w \<Longrightarrow> stream_inv w0 (step op w)"
  by (cases op)
     (simp_all add: stream_inv_new_stream derive_def asBroadcastStream_def stream_inv_add
        stream_inv_addError stream_inv_close stream_inv_listen stream_inv_aggregate
        stream_inv_sub_pause stream_inv_sub_resume stream_inv_sub_cancel
        stream_inv_stream_pause stream_inv_stream_resume stream_inv_tick
        addEventListener_def removeEventListener_def stream_inv_upd_other)

lemma stream_inv_run: "stream_inv w0 w \<Longrightarrow> stream_inv w0 (run ops w)"
  by (induction ops arbitrary: w) (simp_all add: stream_inv_step)

lemma stream_inv_refl: "buffers_ok w \<Longrightarrow> stream_inv w w"
  by (simp add: stream_inv_def closed_kept_def)


lemma run_append: "run (xs @ ys) w = run ys (run xs w)"
  by (induction xs arbitrary: w) simp_all

lemma close_buffer:
  "buffer (streams (close s w) s)
     = (if is_broadcast (streams w s) then buffer (streams w s) else buffer (streams w s) @ [Done])"
proof (cases "kind (streams w s)")
  case Base
  then show ?thesis
    by (simp add: close_def is_broadcast_def base_close_def emit_def nextTick_def
        createDoneMessage_def)
next
  case (Broadcast p)
  then show ?thesis
    by (simp add: close_def is_broadcast_def bc_close_def Let_def nextTick_def cancel_defs
        split: option.splits kind.splits)
next
  case (Filtering p v)
  then show ?thesis by (simp add: close_def is_broadcast_def filtering_close_buffer)
qed

lemma close_closed: "isClosed (streams (close s w) s)"
  by (cases "kind (streams w s)")
     (simp_all add: close_def base_close_def emit_def nextTick_def filtering_close_closed
        bc_close_def Let_def cancel_defs split: option.splits kind.splits)

lemma add_closed:
  assumes "isClosed (streams w s)"
  shows "fst (add s d w) = closed_add (streams w s) d
       \<and> (buffer (streams (snd (add s d w)) s) = buffer (streams w s)
          \<or> closed_add (streams w s) d = None
            \<and> buffer (streams (snd (add s d w)) s) = buffer (streams w s) @ [Done])"
proof (cases "kind (streams w s)")
  case Base
  then show ?thesis using assms by (simp add: add_def closed_add_def base_add_def)
next
  case (Broadcast p)
  then show ?thesis using assms by (simp add: add_def closed_add_def bc_add_def)
next
  case (Filtering p v)
  then show ?thesis using assms
    by (cases v)
       (auto simp add: add_def closed_add_def base_add_def map_add_def take_add_def
          takeWhile_add_def skip_add_def skipWhile_add_def where_add_def Let_def
          filtering_close_buffer split: outcome.splits bool.splits)
qed

lemma addError_closed:
  "isClosed (streams w s) \<Longrightarrow> addError s m w = (Some ErrorForAddError, w)"
  by (simp add: addError_def base_addError_def bc_addError_def split: kind.splits)

text \<open>
  Claim C2 (amended). Let the buffers of a store have the shape \<open>buffers_ok\<close> (a buffer
  holds Done messages only if its stream is closed, and only Done messages follow a
  Done message). After any program \<open>ops\<close>:
  \<^item> all buffers still have that shape;
  \<^item> a stream that was closed is still closed;
  \<^item> on a closed stream \<^verbatim>\<open>addError\<close> throws and changes nothing, and \<^verbatim>\<open>add\<close> throws what
    \<open>closed_add\<close> says and changes nothing: it fails on every base, broadcast,
    \<^verbatim>\<open>fromStream\<close> and \<^verbatim>\<open>map\<close> stream, and returns normally exactly where the override does
    not reach the inherited \<^verbatim>\<open>add\<close>;
  \<^item> one more \<^verbatim>\<open>close\<close> call leaves the stream closed and appends one more Done message to
    the buffer of a stream that is not a broadcast stream, whether the stream was
    closed or not; a broadcast stream never buffers.
\<close>

theorem closed_streams:
  assumes "buffers_ok w"
  shows "buffers_ok (run ops w)
       \<and> (s < next_stream w \<and> isClosed (streams w s) \<longrightarrow> isClosed (streams (run ops w) s))
       \<and> (isClosed (streams (run ops w) s) \<longrightarrow>
            addError s m (run ops w) = (Some ErrorForAddError, run ops w)
          \<and> fst (add s d (run ops w)) = closed_add (streams (run ops w) s) d
          \<and> (buffer (streams (snd (add s d (run ops w))) s) = buffer (streams (run ops w) s)
             \<or> closed_add (streams (run ops w) s) d = None
               \<and> buffer (streams (snd (add s d (run ops w))) s)
                   = buffer (streams (run ops w) s) @ [Done]))
       \<and> isClosed (streams (run (ops @ [OpClose s]) w) s)
       \<and> buffer (streams (run (ops @ [OpClose s]) w) s)
           = (if is_broadcast (streams (run ops w) s) then buffer (streams (run ops w) s)
              else buffer (streams (run ops w) s) @ [Done])"
proof -
  have inv: "stream_inv w (run ops w)"
    using assms by (intro stream_inv_run stream_inv_refl)
  then have b: "buffers_ok (run ops w)" by (simp add: stream_inv_def)
  have ck: "s < next_stream w \<and> isClosed (streams w s) \<longrightarrow> isClosed (streams (run ops w) s)"
    using inv unfolding stream_inv_def closed_kept_def by (metis not_le)
  have e: "isClosed (streams (run ops w) s) \<longrightarrow>
            addError s m (run ops w) = (Some ErrorForAddError, run ops w)
          \<and> fst (add s d (run ops w)) = closed_add (streams (run ops w) s) d
          \<and> (buffer (streams (snd (add s d (run ops w))) s) = buffer (streams (run ops w) s)
             \<or> closed_add (streams (run ops w) s) d = None
               \<and> buffer (streams (snd (add s d (run ops w))) s)
                   = buffer (streams (run ops w) s) @ [Done])"
    using add_closed[of "run ops w" s d] addError_closed[of "run ops w" s m] by blast
  have c: "isClosed (streams (run (ops @ [OpClose s]) w) s)"
    by (simp add: run_append close_closed)
  have c2: "buffer (streams (run (ops @ [OpClose s]) w) s)
           = (if is_broadcast (streams (run ops w) s) then buffer (streams (run ops w) s)
              else buffer (streams (run ops w) s) @ [Done])"
    by (simp only: run_append run.simps step.simps close_buffer)
  show ?thesis using b ck e c c2 by blast
qed

lemma ex_closed_once_facts:
  "buffers_ok ex_closed_once"
  "0 < next_stream ex_closed_once"
  "isClosed (streams ex_closed_once 0)"
  "kind (streams ex_closed_once 0) = Base"
  by (simp_all add: ex_closed_once_def buffers_ok_def buffer_ok_def world_defs add_def
      base_add_def close_def base_close_def createDoneMessage_def)

lemma ex_closed_once_kind:
  "closed_add (streams (run ex_after_close_ops ex_closed_once) 0) (9::nat) = Some ErrorForAdd"
  "\<not> is_broadcast (streams (run ex_after_close_ops ex_closed_once) 0)"
  "buffer (streams (run ex_after_close_ops ex_closed_once) 0) = [Data 1, Done, Done]"
  by (simp add: closed_add_def is_broadcast_def ex_after_close_ops_def ex_closed_once_def, code_simp)+

theorem closed_streams_witness:
  "buffers_ok ex_closed_once
   \<and> 0 < next_stream ex_closed_once \<and> isClosed (streams ex_closed_once 0)
   \<and> buffers_ok (run ex_after_close_ops ex_closed_once)
   \<and> isClosed (streams (run ex_after_close_ops ex_closed_once) 0)
   \<and> addError 0 (Msg ''late'') (run ex_after_close_ops ex_closed_once)
       = (Some ErrorForAddError, run ex_after_close_ops ex_closed_once)
   \<and> fst (add 0 9 (run ex_after_close_ops ex_closed_once)) = Some ErrorForAdd
   \<and> buffer (streams (snd (add 0 9 (run ex_after_close_ops ex_closed_once))) 0)
       = [Data 1, Done, Done]
   \<and> buffer (streams (run (ex_after_close_ops @ [OpClose 0]) ex_closed_once) 0)
       = [Data 1, Done, Done, Done]"
  using closed_streams[OF ex_closed_once_facts(1),
      where s = 0 and ops = ex_after_close_ops and m = "Msg ''late''" and d = 9]
    ex_closed_once_facts ex_closed_once_kind
  by simp

text \<open>Claim C2 as stated fails. After \<^verbatim>\<open>close(); close()\<close> the buffer holds two Done
  messages. And \<^verbatim>\<open>add\<close> on the closed take stream of \<open>ex_taken\<close> does not fail: it returns
  normally and leaves a second Done message in the buffer.\<close>

theorem close_twice_counterexample:
  "buffer (streams ex_closed_twice 0) = [Done, Done]
   \<and> isClosed (streams ex_taken 1)
   \<and> buffer (streams ex_taken 1) = [Data 7, Done]
   \<and> fst (add 1 8 ex_taken) = None
   \<and> buffer (streams (snd (add 1 8 ex_taken)) 1) = [Data 7, Done, Done]"
  by (simp add: ex_closed_twice_def ex_taken_def, code_simp)


section \<open>fromPromises of no promises\<close>

lemma open_inv_field_upd [simp]:
  "open_inv s (w\<lparr>aggs := c\<rparr>) = open_inv s w"
  "open_inv s (w\<lparr>next_agg := d\<rparr>) = open_inv s w"
  "open_inv s (w\<lparr>queue := e\<rparr>) = open_inv s w"
  "open_inv s (w\<lparr>trace := f\<rparr>) = open_inv s w"
  "open_inv s (w\<lparr>next_sub := b\<rparr>) = open_inv s w"
  by (simp_all add: open_inv_def)

lemma open_inv_nextTick [simp]: "open_inv s (nextTick t w) = open_inv s w"
  by (simp add: nextTick_def)

lemma open_inv_log [simp]: "open_inv s (log_event e w) = open_inv s w"
  by (simp add: log_event_def)

lemma open_inv_upd_agg [simp]: "open_inv s (upd_agg k f w) = open_inv s w"
  by (simp add: upd_agg_def)

lemma open_inv_upd_sub:
  "handler (f (subs w k)) = handler (subs w k) \<Longrightarrow> open_inv s (upd_sub k f w) = open_inv s w"
  by (auto simp add: open_inv_def upd_sub_def)

lemma open_inv_new_sub:
  "open_inv s w \<Longrightarrow> h \<noteq> Wire s \<Longrightarrow> open_inv s (w\<lparr>subs := (subs w)(k := new_subscription c h)\<rparr>)"
  by (auto simp add: open_inv_def new_subscription_def)

lemma open_inv_upd_other:
  assumes "buffer (f (streams w c)) = buffer (streams w c)"
    and "isClosed (f (streams w c)) = isClosed (streams w c)"
    and "kind (f (streams w c)) = kind (streams w c)"
  shows "open_inv s (upd_stream c f w) = open_inv s w"
  using assms by (auto simp add: open_inv_def upd_stream_def)

lemma open_inv_upd_neq:
  "c \<noteq> s \<Longrightarrow> open_inv s (upd_stream c f w) = open_inv s w"
  by (auto simp add: open_inv_def upd_stream_def)

lemma open_inv_callEventListeners [simp]:
  "open_inv s (callEventListeners c n w) = open_inv s w"
  by (simp add: callEventListeners_def)

lemma open_inv_emit [simp]: "open_inv s (emit c w) = open_inv s w"
  by (simp add: emit_def)

lemma open_inv_base_cancel [simp]: "open_inv s (base_cancel c k w) = open_inv s w"
  by (simp add: base_cancel_def open_inv_upd_other)

lemma open_inv_bc_cancel [simp]: "open_inv s (bc_cancel c k w) = open_inv s w"
  by (simp add: bc_cancel_def open_inv_upd_other)

lemma open_inv_sub_cancel [simp]: "open_inv s (sub_cancel k w) = open_inv s w"
  by (simp add: sub_cancel_def stream_cancel_def split: kind.splits)

lemma has_done_snoc_other: "m \<noteq> Done \<Longrightarrow> has_done (b @ [m]) = has_done b"
  by (induction b rule: has_done.induct) (cases m; simp)+

lemma open_inv_base_add: "open_inv s w \<Longrightarrow> open_inv s (snd (base_add c d w))"
  by (auto simp add: base_add_def open_inv_def upd_stream_def emit_def nextTick_def
      has_done_snoc_other)

lemma open_inv_base_addError: "open_inv s w \<Longrightarrow> open_inv s (snd (base_addError c m w))"
  by (auto simp add: base_addError_def open_inv_def upd_stream_def emit_def nextTick_def
      has_done_snoc_other createErrorMessage_not_Done)

lemma open_inv_base_close: "c \<noteq> s \<Longrightarrow> open_inv s (base_close c w) = open_inv s w"
  by (simp add: base_close_def open_inv_upd_neq)

lemma open_inv_base_pause [simp]: "open_inv s (base_pause c w) = open_inv s w"
  by (simp add: base_pause_def open_inv_upd_other)

lemma open_inv_base_resume [simp]: "open_inv s (base_resume c w) = open_inv s w"
  by (simp add: base_resume_def open_inv_upd_other)

lemma open_inv_bc_add [simp]: "open_inv s (snd (bc_add c d w)) = open_inv s w"
  by (simp add: bc_add_def)

lemma open_inv_bc_addError [simp]: "open_inv s (snd (bc_addError c d w)) = open_inv s w"
  by (simp add: bc_addError_def)

lemma open_inv_bc_close: "c \<noteq> s \<Longrightarrow> open_inv s (bc_close c w) = open_inv s w"
  by (simp add: bc_close_def Let_def open_inv_upd_neq split: option.splits)

lemma open_inv_filtering_close: "c \<noteq> s \<Longrightarrow> open_inv s (filtering_close c w) = open_inv s w"
  by (simp add: filtering_close_def Let_def open_inv_upd_neq open_inv_base_close
      split: option.splits)

lemma open_inv_take_add:
  "c \<noteq> s \<Longrightarrow> open_inv s w \<Longrightarrow> open_inv s (snd (take_add c n d w))"
  unfolding take_add_def
  apply (rule and_then_preserves[where P="open_inv s"])
   apply (simp add: open_inv_base_add)
   apply (rule impI)
   apply (rule and_then_preserves[where P="open_inv s"])
    apply (simp_all add: open_inv_base_add open_inv_upd_neq open_inv_filtering_close)
  done

lemma open_inv_takeWhile_add:
  "c \<noteq> s \<Longrightarrow> open_inv s w \<Longrightarrow> open_inv s (snd (takeWhile_add c p d w))"
  using open_inv_base_add[of s w c d]
  by (auto simp add: takeWhile_add_def open_inv_filtering_close
      split: outcome.splits bool.splits prod.splits option.splits)

lemma open_inv_add: "open_inv s w \<Longrightarrow> open_inv s (snd (add c d w))"
proof (cases "c = s")
  case True
  assume "open_inv s w"
  then have "kind (streams w c) = Base" using True by (simp add: open_inv_def)
  then show ?thesis using \<open>open_inv s w\<close> by (simp add: add_def open_inv_base_add)
next
  case False
  assume "open_inv s w"
  then show ?thesis using False
    by (auto simp add: add_def open_inv_base_add map_add_def skip_add_def skipWhile_add_def
        where_add_def open_inv_upd_neq open_inv_take_add open_inv_takeWhile_add Let_def
        split: kind.splits variant.splits outcome.splits bool.splits)
qed


lemma open_inv_addError: "open_inv s w \<Longrightarrow> open_inv s (snd (addError c m w))"
  by (simp add: addError_def open_inv_base_addError split: kind.splits)

lemma open_inv_close: "c \<noteq> s \<Longrightarrow> open_inv s (close c w) = open_inv s w"
  by (simp add: close_def open_inv_base_close open_inv_bc_close open_inv_filtering_close
      split: kind.splits)

lemma open_inv_stream_pause [simp]: "open_inv s (stream_pause c w) = open_inv s w"
  by (simp add: stream_pause_def split: kind.splits)

lemma open_inv_stream_resume [simp]: "open_inv s (stream_resume c w) = open_inv s w"
  by (simp add: stream_resume_def split: kind.splits)

lemma open_inv_settle [simp]: "open_inv s (settle p v w) = open_inv s w"
  by (simp add: settle_def)

lemma open_inv_run_action [simp]: "open_inv s (run_action k p a w) = open_inv s w"
  by (cases a) simp_all

lemma open_inv_run_actions [simp]: "open_inv s (run_actions k p acts w) = open_inv s w"
  unfolding run_actions_def by (induction acts arbitrary: w) simp_all

lemma open_inv_no_wire: "open_inv s w \<Longrightarrow> handler (subs w k) = Wire c \<Longrightarrow> c \<noteq> s"
  by (auto simp add: open_inv_def)

lemma open_inv_deliver: "open_inv s w \<Longrightarrow> open_inv s (snd (deliver k m w))"
proof (cases "handler (subs w k)")
  case (Wire c)
  assume a: "open_inv s w"
  then have "c \<noteq> s" using Wire by (rule open_inv_no_wire)
  then show ?thesis using a Wire
    by (cases m) (simp_all add: deliver_def open_inv_add open_inv_addError open_inv_close)
next
  case (Recorder l opts)
  assume "open_inv s w"
  then show ?thesis using Recorder by (cases m) (simp_all add: deliver_def Let_def)
next
  case (Agg p a)
  assume "open_inv s w"
  then show ?thesis using Agg by (cases m) (simp_all add: deliver_def Let_def)
qed

lemma open_inv_sub_emit: "open_inv s w \<Longrightarrow> open_inv s (snd (sub_emit k w))"
  unfolding sub_emit_def
  apply (simp, rule impI)
  apply (rule and_then_preserves[where P="open_inv s"])
   apply (rule for_each_preserves[where P="open_inv s"])
    apply (simp_all add: open_inv_deliver open_inv_upd_sub)
  done

lemma open_inv_messageHandler: "open_inv s w \<Longrightarrow> open_inv s (snd (messageHandler k m w))"
  by (simp add: messageHandler_def open_inv_sub_emit open_inv_upd_sub)

lemma open_inv_sub_pause: "open_inv s w \<Longrightarrow> open_inv s (sub_pause k w)"
  by (simp add: sub_pause_def pause_callback_def open_inv_upd_sub split: handler.splits)

lemma open_inv_sub_resume: "open_inv s w \<Longrightarrow> open_inv s (snd (sub_resume k w))"
  by (auto simp add: sub_resume_def resume_callback_def open_inv_upd_sub
      intro!: open_inv_sub_emit split: handler.splits)

lemma open_inv_flush_step: "open_inv s w \<Longrightarrow> open_inv s (snd (flush_step c m w))"
  by (simp add: flush_step_def open_inv_messageHandler split: option.splits)

lemma open_inv_fanout_step: "open_inv s w \<Longrightarrow> open_inv s (snd (fanout_step c m k w))"
  by (simp add: fanout_step_def open_inv_messageHandler)

lemma open_inv_clear: "open_inv s w \<Longrightarrow> open_inv s (upd_stream c (\<lambda>st. st\<lparr>buffer := []\<rparr>) w)"
  by (auto simp add: open_inv_def upd_stream_def)

lemma open_inv_flush_finish: "open_inv s w \<Longrightarrow> open_inv s (snd (flush_finish c w))"
  by (auto simp add: flush_finish_def Let_def open_inv_clear split: option.splits)

lemma open_inv_hooks:
  "open_inv s (foldl (\<lambda>w' c. log_event (Hook c' name c) w') w cs) = open_inv s w"
  by (induction cs arbitrary: w) simp_all

lemma open_inv_run_task: "open_inv s w \<Longrightarrow> open_inv s (snd (run_task t w))"
proof (cases t)
  case (TFlush c)
  assume "open_inv s w"
  then show ?thesis unfolding TFlush run_task.simps
    apply -
    apply (rule and_then_preserves[where P="open_inv s"])
     apply (rule for_each_preserves[where P="open_inv s"])
      apply (simp_all add: open_inv_flush_step open_inv_flush_finish)
    done
next
  case (TEvent c name)
  assume "open_inv s w"
  then show ?thesis unfolding TEvent by (simp add: open_inv_hooks)
next
  case (TFanout c m)
  assume "open_inv s w"
  then show ?thesis unfolding TFanout run_task.simps
    apply -
    apply (rule for_each_preserves[where P="open_inv s"])
     apply (simp_all add: open_inv_fanout_step)
    done
qed

lemma open_inv_tick: "open_inv s w \<Longrightarrow> open_inv s (snd (tick w))"
  by (auto simp add: tick_def intro!: open_inv_run_task split: list.splits)

lemma open_inv_base_listen:
  "open_inv s w \<Longrightarrow> h \<noteq> Wire s \<Longrightarrow> open_inv s (snd (base_listen c h w))"
  by (simp add: base_listen_def Let_def open_inv_upd_other open_inv_new_sub)

lemma open_inv_bc_subscribe:
  "open_inv s w \<Longrightarrow> h \<noteq> Wire s \<Longrightarrow> c \<noteq> s \<Longrightarrow> open_inv s (snd (bc_subscribe c h w))"
  by (simp add: bc_subscribe_def Let_def open_inv_upd_other open_inv_new_sub open_inv_bc_close)

lemma open_inv_kind: "open_inv s w \<Longrightarrow> kind (streams w c) \<noteq> Base \<Longrightarrow> c \<noteq> s"
  by (auto simp add: open_inv_def)

lemma open_inv_listen:
  "open_inv s w \<Longrightarrow> h \<noteq> Wire s \<Longrightarrow> open_inv s (snd (listen c h w))"
proof (induction c h w rule: listen.induct)
  case (1 c h w)
  show ?case
  proof (cases "kind (streams w c)")
    case Base
    then show ?thesis using 1(3,4) by (simp add: listen.simps[of c h w] open_inv_base_listen)
  next
    case (Broadcast p)
    then have ne: "c \<noteq> s" using open_inv_kind[OF 1(3), of c] by simp
    then show ?thesis using 1(1)[OF Broadcast _ _ 1(3)] 1(3,4) Broadcast
      by (auto simp add: listen.simps[of c h w] open_inv_upd_neq
          intro!: open_inv_bc_subscribe split: prod.splits sum.splits)
  next
    case (Filtering p v)
    then have ne: "c \<noteq> s" using open_inv_kind[OF 1(3), of c] by simp
    then show ?thesis using 1(2)[OF Filtering _ _ 1(3)] 1(3,4) Filtering
      by (auto simp add: listen.simps[of c h w] open_inv_upd_neq
          intro!: open_inv_base_listen split: prod.splits sum.splits)
  qed
qed

lemma open_inv_new_stream: "open_inv s w \<Longrightarrow> open_inv s (snd (new_stream k w))"
  by (auto simp add: new_stream_def open_inv_def)

lemma open_inv_aggregate: "open_inv s w \<Longrightarrow> open_inv s (snd (aggregate c a i w))"
proof -
  assume a: "open_inv s w"
  define w1 where "w1 = w\<lparr>aggs := (aggs w)(next_agg w := new_agg_state\<lparr>acc := i,
      seenFirst := (case i of VUndef \<Rightarrow> False | _ \<Rightarrow> True)\<rparr>), next_agg := Suc (next_agg w)\<rparr>"
  have "open_inv s w1" using a by (simp add: w1_def)
  then have "open_inv s (snd (listen c (Agg (next_agg w) a) w1))"
    by (rule open_inv_listen) simp
  then show ?thesis
    unfolding aggregate_def Let_def w1_def[symmetric]
    by (cases "listen c (Agg (next_agg w) a) w1") (auto split: sum.splits)
qed

lemma open_inv_step: "open_inv s w \<Longrightarrow> outside_call s (Call op) \<Longrightarrow> open_inv s (step op w)"
  by (cases op)
     (simp_all add: open_inv_new_stream derive_def asBroadcastStream_def open_inv_add
        open_inv_addError open_inv_close open_inv_listen open_inv_aggregate
        open_inv_sub_pause open_inv_sub_resume open_inv_tick
        addEventListener_def removeEventListener_def open_inv_upd_other)


lemma fromPromises_empty:
  "fromPromises [] w =
     (\<lparr>fp_controller = \<lparr>srcStream = next_stream w, dstStream = next_stream w\<rparr>,
        fp_count = 0, fp_waiting = []\<rparr>,
      snd (new_controller False w))"
  by (simp add: fromPromises_def new_controller_def new_stream_def Let_def)

lemma new_controller_open:
  assumes "\<forall>k. handler (subs w k) \<noteq> Wire (next_stream w)"
  shows "open_inv (next_stream w) (snd (new_controller False w))"
  using assms
  by (simp add: new_controller_def new_stream_def Let_def addEventListener_def open_inv_def
      upd_stream_def new_stream_obj_def)

lemma fp_step_empty:
  assumes "fp_waiting (fst x) = []" "open_inv s (snd x)" "outside_call s op"
  shows "fp_waiting (fst (fp_step op x)) = [] \<and> fp_count (fst (fp_step op x)) = fp_count (fst x)
       \<and> open_inv s (snd (fp_step op x))"
proof (cases op)
  case (Call c)
  then show ?thesis using assms open_inv_step[of s "snd x" c] by simp
next
  case (Settles p r)
  then show ?thesis using assms by (cases x) (simp add: fp_settle_def)
qed

lemma fp_run_empty:
  assumes "fp_waiting (fst x) = []" "open_inv s (snd x)" "list_all (outside_call s) ops"
  shows "fp_count (fst (fp_run ops x)) = fp_count (fst x) \<and> open_inv s (snd (fp_run ops x))"
  using assms
proof (induction ops arbitrary: x)
  case Nil
  then show ?case by simp
next
  case (Cons op ops)
  have st: "fp_waiting (fst (fp_step op x)) = [] \<and> fp_count (fst (fp_step op x)) = fp_count (fst x)
       \<and> open_inv s (snd (fp_step op x))"
    using fp_step_empty[of x s op] Cons.prems by simp
  then show ?case using Cons.IH[of "fp_step op x"] Cons.prems(3) by simp
qed

text \<open>
  Claim C10. \<^verbatim>\<open>fromPromises\<close> of the empty iterable, called on a store in which no
  subscription refers to the stream about to be created: the count is zero and no
  callback is registered. Whatever the rest of the program does afterwards (any calls
  on the store other than the controller's own \<^verbatim>\<open>close\<close>, any deferred tasks, any
  promises settling), the count stays zero, the stream is never closed, and its
  buffer never holds a Done message.
\<close>

theorem fromPromises_empty_never_closes:
  assumes "\<forall>k. handler (subs w k) \<noteq> Wire (next_stream w)"
    and "fromPromises [] w = (fp, w1)"
    and "list_all (outside_call (next_stream w)) ops"
    and "fp_run ops (fp, w1) = (fp', w')"
  shows "srcStream (fp_controller fp) = next_stream w
       \<and> dstStream (fp_controller fp) = next_stream w
       \<and> fp_count fp = 0 \<and> fp_waiting fp = [] \<and> fp_count fp' = 0
       \<and> \<not> isClosed (streams w' (next_stream w))
       \<and> \<not> has_done (buffer (streams w' (next_stream w)))"
proof -
  have fp: "fp = \<lparr>fp_controller = \<lparr>srcStream = next_stream w, dstStream = next_stream w\<rparr>,
        fp_count = 0, fp_waiting = []\<rparr>" and w1: "w1 = snd (new_controller False w)"
    using assms(2) unfolding fromPromises_empty by simp_all
  have o: "open_inv (next_stream w) (snd (fp, w1))"
    using new_controller_open[OF assms(1)] w1 by simp
  have "fp_waiting (fst (fp, w1)) = []" using fp by simp
  from fp_run_empty[OF this o assms(3)] assms(4)
  have "fp_count fp' = fp_count fp \<and> open_inv (next_stream w) w'" by simp
  then show ?thesis using fp by (simp add: open_inv_def)
qed

theorem fromPromises_empty_never_closes_witness:
  "(\<forall>k. handler (subs (init_world :: nat world) k) \<noteq> Wire (next_stream (init_world :: nat world)))
   \<and> list_all (outside_call (next_stream (init_world :: nat world))) ex_fp_ops
   \<and> srcStream (fp_controller (fst ex_fp_start)) = 0
   \<and> dstStream (fp_controller (fst ex_fp_start)) = 0
   \<and> fp_count (fst ex_fp_start) = 0
   \<and> fp_count (fst (fp_run ex_fp_ops ex_fp_start)) = 0
   \<and> \<not> isClosed (streams (snd (fp_run ex_fp_ops ex_fp_start)) 0)
   \<and> \<not> has_done (buffer (streams (snd (fp_run ex_fp_ops ex_fp_start)) 0))"
proof -
  have h: "\<forall>k. handler (subs (init_world :: nat world) k)
      \<noteq> Wire (next_stream (init_world :: nat world))"
    by (simp add: init_world_def new_subscription_def)
  have n: "next_stream (init_world :: nat world) = 0" by (simp add: init_world_def)
  have o: "list_all (outside_call (next_stream (init_world :: nat world))) ex_fp_ops"
    by (simp add: ex_fp_ops_def n)
  have f: "fromPromises [] (init_world :: nat world) = (fst ex_fp_start, snd ex_fp_start)"
    by (simp add: ex_fp_start_def)
  have r: "fp_run ex_fp_ops (fst ex_fp_start, snd ex_fp_start)
      = (fst (fp_run ex_fp_ops ex_fp_start), snd (fp_run ex_fp_ops ex_fp_start))"
    by simp
  show ?thesis
    using fromPromises_empty_never_closes[OF h f o r] h o n by simp
qed

section \<open>Broadcast streams\<close>

lemma plain_recorder_log [simp]:
  "plain_recorder (w\<lparr>trace := t\<rparr>) = plain_recorder w"
  by (simp add: plain_recorder_def fun_eq_iff split: handler.splits)

lemma recorder_events_log [simp]:
  "recorder_events (w\<lparr>trace := t\<rparr>) = recorder_events w"
  by (simp add: recorder_events_def fun_eq_iff)



section \<open>The fan-out loop of a broadcast stream\<close>



text \<open>No method of a stream reads or writes the buffer of a subscription.\<close>

lemma set_sbuffer_fields [simp]:
  "streams (set_sbuffer k ms w) = streams w"
  "queue (set_sbuffer k ms w) = queue w"
  "trace (set_sbuffer k ms w) = trace w"
  "aggs (set_sbuffer k ms w) = aggs w"
  "owner (subs (set_sbuffer k ms w) k') = owner (subs w k')"
  "handler (subs (set_sbuffer k ms w) k') = handler (subs w k')"
  by (simp_all add: set_sbuffer_def upd_sub_def)
















lemma subs_emit [simp]: "subs (emit s w) = subs w"
  by (simp add: emit_def nextTick_def)

lemma subs_base_close [simp]: "subs (base_close s w) = subs w"
  by (simp add: base_close_def)

lemma subs_filtering_close [simp]: "subs (filtering_close s w) = subs w"
  by (simp add: filtering_close_def Let_def split: option.splits)

lemma subs_close [simp]: "subs (close s w) = subs w"
  by (simp add: close_def split: kind.splits)

lemma subs_base_add [simp]: "subs (snd (base_add s d w)) = subs w"
  by (simp add: base_add_def)

lemma subs_addError [simp]: "subs (snd (addError s e w)) = subs w"
  by (simp add: addError_def base_addError_def bc_addError_def nextTick_def split: kind.splits)

lemma subs_add [simp]: "subs (snd (add s d w)) = subs w"
proof (cases "kind (streams w s)")
  case Base
  then show ?thesis by (simp add: add_def)
next
  case (Broadcast p)
  then show ?thesis by (simp add: add_def bc_add_def nextTick_def)
next
  case (Filtering p v)
  then show ?thesis
    by (cases v)
       (auto simp add: add_def map_add_def take_add_def takeWhile_add_def skip_add_def
          skipWhile_add_def where_add_def Let_def and_then_def base_add_def
          split: outcome.splits bool.splits prod.splits option.splits)
qed

lemma subs_run_actions [simp]: "subs (run_actions k p acts w) = subs w"
proof (induction acts arbitrary: w)
  case Nil
  then show ?case by simp
next
  case (Cons a acts)
  have "subs (run_action k p a w) = subs w" by (cases a) simp_all
  then show ?case using Cons.IH[of "run_action k p a w"] by (simp add: run_actions_def)
qed




section \<open>Who receives what\<close>

lemma received_append [simp]: "received l (xs @ ys) = received l xs @ received l ys"
  by (induction xs rule: received.induct) simp_all

lemma received_settle [simp]: "received l (trace (settle p v w)) = received l (trace w)"
  by (simp add: trace_settle)

lemma received_sub_cancel: "received l (trace (sub_cancel k w)) = received l (trace w)"
  by simp

lemma trace_emit [simp]: "trace (emit s w) = trace w"
  by (simp add: emit_def nextTick_def)

lemma received_filtering_close [simp]:
  "received l (trace (filtering_close s w)) = received l (trace w)"
  by (simp add: filtering_close_def Let_def base_close_def split: option.splits)

lemma received_bc_close [simp]:
  "received l (trace (bc_close s w)) = received l (trace w)"
  by (simp add: bc_close_def Let_def nextTick_def split: option.splits)

lemma received_close [simp]: "received l (trace (close s w)) = received l (trace w)"
  by (simp add: close_def base_close_def split: kind.splits)

lemma received_addError [simp]:
  "received l (trace (snd (addError s e w))) = received l (trace w)"
  by (simp add: addError_def base_addError_def bc_addError_def nextTick_def split: kind.splits)

lemma received_add [simp]: "received l (trace (snd (add s d w))) = received l (trace w)"
proof (cases "kind (streams w s)")
  case Base
  then show ?thesis by (simp add: add_def base_add_def)
next
  case (Broadcast p)
  then show ?thesis by (simp add: add_def bc_add_def nextTick_def)
next
  case (Filtering p v)
  then show ?thesis
    by (cases v)
       (auto simp add: add_def map_add_def take_add_def takeWhile_add_def skip_add_def
          skipWhile_add_def where_add_def Let_def and_then_def base_add_def
          split: outcome.splits bool.splits prod.splits option.splits)
qed

lemma received_run_actions [simp]:
  "received l (trace (run_actions k p acts w)) = received l (trace w)"
proof (induction acts arbitrary: w)
  case Nil
  then show ?case by simp
next
  case (Cons a acts)
  have "received l (trace (run_action k p a w)) = received l (trace w)" by (cases a) simp_all
  then show ?case using Cons.IH[of "run_action k p a w"] by (simp add: run_actions_def)
qed







section \<open>Broadcast streams: publication and fan-out\<close>





lemma plain_recorder_queue [simp]:
  "plain_recorder (w\<lparr>queue := t\<rparr>) = plain_recorder w"
  by (simp add: plain_recorder_def fun_eq_iff split: handler.splits)

lemma recorder_events_queue [simp]:
  "recorder_events (w\<lparr>queue := t\<rparr>) = recorder_events w"
  by (simp add: recorder_events_def fun_eq_iff)






lemma hook_events_simps [simp]:
  "hook_events (w\<lparr>queue := q\<rparr>) = hook_events w"
  "hook_events (w\<lparr>trace := t\<rparr>) = hook_events w"
  "hook_events (w\<lparr>subs := sb\<rparr>) = hook_events w"
  "hook_events (w\<lparr>next_sub := n\<rparr>) = hook_events w"
  by (simp_all add: hook_events_def fun_eq_iff)





















end
